theory Spec2Isabelle
  imports Main
begin

section \<open>Characters, trimming and the regular expressions of \<open>main.py\<close>\<close>

text \<open>
  A Python \<open>str\<close> is modelled as a \<^typ>\<open>string\<close>; a \<^typ>\<open>char\<close> stands for a code point
  below 256. On that range \<open>str.isspace\<close> (used by \<open>str.strip\<close>) and the regular
  expression class \<open>\s\<close> both hold of the code points 9 to 13, 28 to 32, 133 and 160,
  \<open>\d\<close> holds of the ten ASCII digits, and \<open>re.IGNORECASE\<close> identifies an ASCII
  letter of the patterns below with its other case only.
\<close>

definition NL :: char where
  "NL = CHR 0x0A"

definition is_space :: "char \<Rightarrow> bool" where
  "is_space c \<longleftrightarrow>
     c = CHR 0x09 \<or> c = CHR 0x0A \<or> c = CHR 0x0B \<or> c = CHR 0x0C \<or> c = CHR 0x0D \<or>
     c = CHR 0x1C \<or> c = CHR 0x1D \<or> c = CHR 0x1E \<or> c = CHR 0x1F \<or> c = CHR 0x20 \<or>
     c = CHR 0x85 \<or> c = CHR 0xA0"

definition is_digit :: "char \<Rightarrow> bool" where
  "is_digit c \<longleftrightarrow> c \<in> set ''0123456789''"

text \<open>\<open>str.strip()\<close>: leading and trailing whitespace removed.\<close>

definition strip :: "string \<Rightarrow> string" where
  "strip s = rev (dropWhile is_space (rev (dropWhile is_space s)))"

text \<open>Lower case of an ASCII letter, as \<open>re.IGNORECASE\<close> compares characters.\<close>

definition lower :: "char \<Rightarrow> char" where
  "lower c =
     (case map_of (zip ''ABCDEFGHIJKLMNOPQRSTUVWXYZ'' ''abcdefghijklmnopqrstuvwxyz'') c of
        Some l \<Rightarrow> l
      | None \<Rightarrow> c)"

text \<open>
  A literal word of a pattern under \<open>re.IGNORECASE\<close>, matched at the front of the
  subject; the result is the rest of the subject.
\<close>

fun lit_ci :: "string \<Rightarrow> string \<Rightarrow> string option" where
  "lit_ci [] s = Some s"
| "lit_ci (p # ps) [] = None"
| "lit_ci (p # ps) (c # cs) = (if lower c = lower p then lit_ci ps cs else None)"

text \<open>
  \<open>\s+\<close> in front of a literal letter: the greedy run of whitespace. Giving a
  whitespace character back leaves it in front of the letter, so no shorter run matches.
\<close>

definition spaces1 :: "string \<Rightarrow> string option" where
  "spaces1 s = (case s of [] \<Rightarrow> None
                | c # cs \<Rightarrow> if is_space c then Some (dropWhile is_space cs) else None)"

text \<open>The four header patterns, each tried with \<open>re.match\<close> (anchored at the start).\<close>

definition match_multiple_choice :: "string \<Rightarrow> bool" where
  \<comment> \<open>\<open>^Multiple\s+Choice\<close>\<close>
  "match_multiple_choice line \<longleftrightarrow>
     Option.bind (Option.bind (lit_ci ''Multiple'' line) spaces1) (lit_ci ''Choice'') \<noteq> None"

definition match_true_or_false :: "string \<Rightarrow> bool" where
  \<comment> \<open>\<open>^True\s+or\s+False\<close>\<close>
  "match_true_or_false line \<longleftrightarrow>
     Option.bind (Option.bind (Option.bind (Option.bind
       (lit_ci ''True'' line) spaces1) (lit_ci ''or'')) spaces1) (lit_ci ''False'') \<noteq> None"

definition match_short_answer :: "string \<Rightarrow> bool" where
  \<comment> \<open>\<open>^Short\s+Answer\<close>\<close>
  "match_short_answer line \<longleftrightarrow>
     Option.bind (Option.bind (lit_ci ''Short'' line) spaces1) (lit_ci ''Answer'') \<noteq> None"

definition match_long_answer :: "string \<Rightarrow> bool" where
  \<comment> \<open>\<open>^Long\s+Answer\<close>\<close>
  "match_long_answer line \<longleftrightarrow>
     Option.bind (Option.bind (lit_ci ''Long'' line) spaces1) (lit_ci ''Answer'') \<noteq> None"

text \<open>
  The tail \<open>[\.)\s]+(.+)\<close> shared by the question and the option pattern. The
  delimiter run is greedy and backtracks: after one delimiter, \<open>delims_body\<close> first
  tries to take the next character as a delimiter too and only when that fails lets
  \<open>(.+)\<close> start here. \<open>.\<close> matches every character but the line feed, and \<open>(.+)\<close>
  is the last item of the pattern, so it takes the longest such run.
\<close>

definition is_delim :: "char \<Rightarrow> bool" where
  "is_delim c \<longleftrightarrow> c = CHR ''.'' \<or> c = CHR '')'' \<or> is_space c"

definition body :: "string \<Rightarrow> string option" where
  "body s = (case s of [] \<Rightarrow> None
             | c # cs \<Rightarrow> if c = NL then None else Some (takeWhile (\<lambda>x. x \<noteq> NL) s))"

fun delims_body :: "string \<Rightarrow> string option" where
  "delims_body [] = body []"
| "delims_body (c # cs) =
     (if is_delim c
      then (case delims_body cs of Some b \<Rightarrow> Some b | None \<Rightarrow> body (c # cs))
      else body (c # cs))"

definition delim_tail :: "string \<Rightarrow> string option" where
  "delim_tail s = (case s of [] \<Rightarrow> None
                   | c # cs \<Rightarrow> if is_delim c then delims_body cs else None)"

text \<open>
  \<open>re.match(r'^(\d+)[\.)\s]+(.+)', line)\<close>: the two groups, or \<open>None\<close>. The digit run
  is the longest one: after a shorter run the next character is a digit, which is no
  delimiter.
\<close>

definition question_match :: "string \<Rightarrow> (string \<times> string) option" where
  "question_match line =
     (let ds = takeWhile is_digit line in
      if ds = [] then None
      else (case delim_tail (dropWhile is_digit line) of
              None \<Rightarrow> None
            | Some b \<Rightarrow> Some (ds, b)))"

text \<open>\<open>re.match(r'^([a-d1-4])[\.)\s]+(.+)', option_line, re.IGNORECASE)\<close>.\<close>

definition is_label :: "char \<Rightarrow> bool" where
  "is_label c \<longleftrightarrow> lower c \<in> set ''abcd1234''"

definition option_match :: "string \<Rightarrow> (string \<times> string) option" where
  "option_match line =
     (case line of
        [] \<Rightarrow> None
      | c # cs \<Rightarrow>
          if is_label c
          then (case delim_tail cs of None \<Rightarrow> None | Some b \<Rightarrow> Some ([c], b))
          else None)"

section \<open>Questions and options\<close>

text \<open>
  The dictionaries built by the section parsers. \<open>qtext\<close> and \<open>otext\<close> are the
  \<open>"text"\<close> entries of a question and of an option, \<open>qtype\<close> is the \<open>"type"\<close> entry.
\<close>

record opt =
  letter :: string
  otext :: string

record question =
  number :: string
  qtext :: string
  qtype :: string
  options :: "opt list"

section \<open>The section parsers\<close>

text \<open>
  Indices are natural numbers: the only caller passes \<open>i + 1\<close> for an index \<open>i\<close> of the
  line list. Every read \<open>lines[i]\<close> of the source stands under the test
  \<open>i < len(lines)\<close>, and so does every \<open>lines ! i\<close> below; no other operation of the
  parsers can raise.
\<close>

text \<open>The inner loop of \<open>parse_mcq_section\<close> (``Look for 4 options'').\<close>

function scan_options :: "string list \<Rightarrow> nat \<Rightarrow> nat \<Rightarrow> opt list \<Rightarrow> opt list \<times> nat" where
  "scan_options lines i option_count opts =
     (if i < length lines \<and> option_count < 4 then
        (let option_line = strip (lines ! i) in
         if option_line = [] then scan_options lines (i + 1) option_count opts
         else (case option_match option_line of
                 Some (opt_num, g2) \<Rightarrow>
                   scan_options lines (i + 1) (option_count + 1)
                     (opts @ [\<lparr>letter = opt_num, otext = opt_num @ ''. '' @ strip g2\<rparr>])
               | None \<Rightarrow> (opts, i)))
      else (opts, i))"
  by pat_completeness auto
termination
  by (relation "measure (\<lambda>(lines, i, c, opts). length lines - i)") auto

definition mcq_terminator :: "string \<Rightarrow> bool" where
  \<comment> \<open>\<open>^(True\s+or\s+False|Short\s+Answer|Long\s+Answer)\<close>\<close>
  "mcq_terminator line \<longleftrightarrow>
     match_true_or_false line \<or> match_short_answer line \<or> match_long_answer line"

definition true_false_terminator :: "string \<Rightarrow> bool" where
  \<comment> \<open>\<open>^(Multiple\s+Choice|Short\s+Answer|Long\s+Answer)\<close>\<close>
  "true_false_terminator line \<longleftrightarrow>
     match_multiple_choice line \<or> match_short_answer line \<or> match_long_answer line"

definition short_answer_terminator :: "string \<Rightarrow> bool" where
  \<comment> \<open>\<open>^(Multiple\s+Choice|True\s+or\s+False|Long\s+Answer)\<close>\<close>
  "short_answer_terminator line \<longleftrightarrow>
     match_multiple_choice line \<or> match_true_or_false line \<or> match_long_answer line"

definition long_answer_terminator :: "string \<Rightarrow> bool" where
  \<comment> \<open>\<open>^(Multiple\s+Choice|True\s+or\s+False|Short\s+Answer)\<close>\<close>
  "long_answer_terminator line \<longleftrightarrow>
     match_multiple_choice line \<or> match_true_or_false line \<or> match_short_answer line"

declare scan_options.simps [simp del]

lemma scan_options_ge: "i \<le> snd (scan_options lines i c opts)"
proof (induction lines i c opts rule: scan_options.induct)
  case (1 lines i option_count opts)
  show ?case
    using "1.IH"
    by (subst scan_options.simps) (fastforce simp: Let_def split: option.splits)
qed

text \<open>The outer loop of \<open>parse_mcq_section\<close>.\<close>

function mcq_loop :: "string list \<Rightarrow> nat \<Rightarrow> question list \<Rightarrow> question list \<times> nat" where
  "mcq_loop lines i questions =
     (if i < length lines then
        (let line = strip (lines ! i) in
         if line = [] then mcq_loop lines (i + 1) questions
         else if mcq_terminator line then (questions, i)
         else (case question_match line of
                 Some (q_num, g2) \<Rightarrow>
                   (let r = scan_options lines (i + 1) 0 [] in
                    mcq_loop lines (snd r)
                      (questions @ [\<lparr>number = q_num, qtext = q_num @ ''. '' @ strip g2,
                                      qtype = ''mcq'', options = fst r\<rparr>]))
               | None \<Rightarrow> mcq_loop lines (i + 1) questions))
      else (questions, i))"
  by pat_completeness auto
termination
proof (relation "measure (\<lambda>(lines, i, questions). length lines - i)")
  fix lines :: "string list" and i :: nat and r :: "opt list \<times> nat"
  assume "i < length lines" and r: "r = scan_options lines (i + 1) 0 []"
  have "i + 1 \<le> snd r" unfolding r by (rule scan_options_ge)
  with \<open>i < length lines\<close>
  show "((lines, snd r, questions @ [\<lparr>number = q_num, qtext = q_num @ ''. '' @ strip g2,
            qtype = ''mcq'', options = fst r\<rparr>]), lines, i, questions)
        \<in> measure (\<lambda>(lines, i, questions). length lines - i)"
    for questions q_num g2
    by simp
qed auto

definition skip_first_blank :: "string list \<Rightarrow> nat \<Rightarrow> nat" where
  \<comment> \<open>\<open>if i < len(lines) and not lines[i].strip(): i += 1\<close>\<close>
  "skip_first_blank lines start_index =
     (if start_index < length lines \<and> strip (lines ! start_index) = []
      then start_index + 1 else start_index)"

definition parse_mcq_section :: "string list \<Rightarrow> nat \<Rightarrow> question list \<times> nat" where
  "parse_mcq_section lines start_index =
     mcq_loop lines (skip_first_blank lines start_index) []"

declare mcq_loop.simps [simp del]

lemma mcq_loop_ge: "i \<le> snd (mcq_loop lines i questions)"
proof (induction lines i questions rule: mcq_loop.induct)
  case (1 lines i questions)
  have step: "i \<le> snd (scan_options lines (i + 1) 0 [])"
    using scan_options_ge [of "i + 1" lines 0 "[]"] by simp
  show ?case
    using "1.IH" step
    by (subst mcq_loop.simps) (fastforce simp: Let_def split: option.splits)
qed

text \<open>
  The loops of \<open>parse_true_false_section\<close>, \<open>parse_short_answer_section\<close> and
  \<open>parse_long_answer_section\<close> are the same text but for the terminator pattern and the
  \<open>"type"\<close> entry, which are the two parameters here.
\<close>

function section_loop ::
  "(string \<Rightarrow> bool) \<Rightarrow> string \<Rightarrow> string list \<Rightarrow> nat \<Rightarrow> question list \<Rightarrow> question list \<times> nat"
where
  "section_loop terminator kind lines i questions =
     (if i < length lines then
        (let line = strip (lines ! i) in
         if line = [] then section_loop terminator kind lines (i + 1) questions
         else if terminator line then (questions, i)
         else (case question_match line of
                 Some (q_num, g2) \<Rightarrow>
                   section_loop terminator kind lines (i + 1)
                     (questions @ [\<lparr>number = q_num, qtext = q_num @ ''. '' @ strip g2,
                                     qtype = kind, options = []\<rparr>])
               | None \<Rightarrow> section_loop terminator kind lines (i + 1) questions))
      else (questions, i))"
  by pat_completeness auto
termination
  by (relation "measure (\<lambda>(t, k, lines, i, qs). length lines - i)") auto

declare section_loop.simps [simp del]

definition parse_true_false_section :: "string list \<Rightarrow> nat \<Rightarrow> question list \<times> nat" where
  "parse_true_false_section lines start_index =
     section_loop true_false_terminator ''true_false'' lines
       (skip_first_blank lines start_index) []"

definition parse_short_answer_section :: "string list \<Rightarrow> nat \<Rightarrow> question list \<times> nat" where
  "parse_short_answer_section lines start_index =
     section_loop short_answer_terminator ''short_answer'' lines
       (skip_first_blank lines start_index) []"

definition parse_long_answer_section :: "string list \<Rightarrow> nat \<Rightarrow> question list \<times> nat" where
  "parse_long_answer_section lines start_index =
     section_loop long_answer_terminator ''long_answer'' lines
       (skip_first_blank lines start_index) []"

lemma section_loop_ge: "i \<le> snd (section_loop t k lines i questions)"
proof (induction t k lines i questions rule: section_loop.induct)
  case (1 t k lines i questions)
  show ?case
    using "1.IH"
    by (subst section_loop.simps) (fastforce simp: Let_def split: option.splits)
qed

lemma skip_first_blank_ge: "start_index \<le> skip_first_blank lines start_index"
  by (simp add: skip_first_blank_def)

lemma parse_mcq_section_ge: "start_index \<le> snd (parse_mcq_section lines start_index)"
  unfolding parse_mcq_section_def
  by (rule order_trans [OF skip_first_blank_ge mcq_loop_ge])

lemma parse_true_false_section_ge:
  "start_index \<le> snd (parse_true_false_section lines start_index)"
  unfolding parse_true_false_section_def
  by (rule order_trans [OF skip_first_blank_ge section_loop_ge])

lemma parse_short_answer_section_ge:
  "start_index \<le> snd (parse_short_answer_section lines start_index)"
  unfolding parse_short_answer_section_def
  by (rule order_trans [OF skip_first_blank_ge section_loop_ge])

lemma parse_long_answer_section_ge:
  "start_index \<le> snd (parse_long_answer_section lines start_index)"
  unfolding parse_long_answer_section_def
  by (rule order_trans [OF skip_first_blank_ge section_loop_ge])

lemma section_advance:
  fixes lines :: "string list"
  assumes "i < length lines"
  shows "length lines - snd (parse_mcq_section lines (Suc i)) < length lines - i"
    and "length lines - snd (parse_true_false_section lines (Suc i)) < length lines - i"
    and "length lines - snd (parse_short_answer_section lines (Suc i)) < length lines - i"
    and "length lines - snd (parse_long_answer_section lines (Suc i)) < length lines - i"
  using assms parse_mcq_section_ge [of "Suc i" lines]
    parse_true_false_section_ge [of "Suc i" lines]
    parse_short_answer_section_ge [of "Suc i" lines]
    parse_long_answer_section_ge [of "Suc i" lines]
  by arith+

section \<open>The questionnaire parser\<close>

text \<open>
  \<open>re.sub(r'\n+', '\n', text)\<close>: a line feed that is followed by another one is
  dropped, so that every run of line feeds leaves one.
\<close>

fun sub_nl :: "string \<Rightarrow> string" where
  "sub_nl [] = []"
| "sub_nl [c] = [c]"
| "sub_nl (c # d # cs) = (if c = NL \<and> d = NL then sub_nl (d # cs) else c # sub_nl (d # cs))"

text \<open>\<open>text.split('\n')\<close>: the pieces between the line feeds, one more than there are line feeds.\<close>

fun split_nl :: "string \<Rightarrow> string list" where
  "split_nl [] = [[]]"
| "split_nl (c # cs) =
     (if c = NL then [] # split_nl cs
      else (let r = split_nl cs in (c # hd r) # tl r))"

definition normalize_lines :: "string \<Rightarrow> string list" where
  "normalize_lines text = map strip (split_nl (sub_nl text))"

text \<open>The \<open>while\<close> loop of \<open>parse_questionnaire\<close>; the \<open>print\<close> calls are left out.\<close>

function dispatch :: "string list \<Rightarrow> nat \<Rightarrow> question list \<Rightarrow> question list" where
  "dispatch lines i all_questions =
     (if i < length lines then
        (let line = strip (lines ! i) in
         if line = [] then dispatch lines (i + 1) all_questions
         else if match_multiple_choice line then
           (let r = parse_mcq_section lines (i + 1) in
            dispatch lines (snd r) (all_questions @ fst r))
         else if match_true_or_false line then
           (let r = parse_true_false_section lines (i + 1) in
            dispatch lines (snd r) (all_questions @ fst r))
         else if match_short_answer line then
           (let r = parse_short_answer_section lines (i + 1) in
            dispatch lines (snd r) (all_questions @ fst r))
         else if match_long_answer line then
           (let r = parse_long_answer_section lines (i + 1) in
            dispatch lines (snd r) (all_questions @ fst r))
         else dispatch lines (i + 1) all_questions)
      else all_questions)"
  by pat_completeness auto
termination
  by (relation "measure (\<lambda>(lines, i, qs). length lines - i)")
     (auto simp: section_advance)

declare dispatch.simps [simp del]

definition parse_questionnaire :: "string \<Rightarrow> question list" where
  "parse_questionnaire text = dispatch (normalize_lines text) 0 []"

section \<open>Notions used to state the properties\<close>

text \<open>
  The definitions above follow \<open>main.py\<close>. Those of this section are not functions of
  the program: they name parts of its control flow and the predicates that the theorems
  below are stated with.
\<close>

text \<open>
  The section parser that the dispatcher calls for a header line, if any: the
  \<open>if\<close>/\<open>elif\<close> chain of the loop of \<open>parse_questionnaire\<close>, in its order.
\<close>

definition header_parser :: "string \<Rightarrow> (string list \<Rightarrow> nat \<Rightarrow> question list \<times> nat) option" where
  "header_parser line =
     (if match_multiple_choice line then Some parse_mcq_section
      else if match_true_or_false line then Some parse_true_false_section
      else if match_short_answer line then Some parse_short_answer_section
      else if match_long_answer line then Some parse_long_answer_section
      else None)"

text \<open>What the kinds of question allow as options.\<close>

definition kind_shape :: "question \<Rightarrow> bool" where
  "kind_shape q \<longleftrightarrow>
     (qtype q = ''mcq'' \<and> length (options q) \<le> 4) \<or>
     ((qtype q = ''true_false'' \<or> qtype q = ''short_answer'' \<or> qtype q = ''long_answer'')
        \<and> options q = [])"

text \<open>
  A question or an option is rendered from a line: the (trimmed) line is the captured
  token, a non-empty run of delimiters, the captured body and what the pattern left over,
  and the text is the token, \<open>". "\<close> and the trimmed body.
\<close>

definition rendered_question :: "string list \<Rightarrow> question \<Rightarrow> bool" where
  "rendered_question lines q \<longleftrightarrow>
     (\<exists>k<length lines. \<exists>ds b rest.
        strip (lines ! k) = number q @ ds @ b @ rest \<and> ds \<noteq> [] \<and> list_all is_delim ds \<and>
        question_match (strip (lines ! k)) = Some (number q, b) \<and>
        qtext q = number q @ ''. '' @ strip b)"

definition rendered_option :: "string list \<Rightarrow> opt \<Rightarrow> bool" where
  "rendered_option lines o' \<longleftrightarrow>
     (\<exists>k<length lines. \<exists>ds b rest.
        strip (lines ! k) = letter o' @ ds @ b @ rest \<and> ds \<noteq> [] \<and> list_all is_delim ds \<and>
        option_match (strip (lines ! k)) = Some (letter o', b) \<and>
        otext o' = letter o' @ ''. '' @ strip b)"

text \<open>
  Index \<open>j\<close> is where a scan from index \<open>s\<close> stops for the terminator pattern \<open>T\<close>: no
  line from \<open>s\<close> up to \<open>j\<close> matches \<open>T\<close>, and the line at \<open>j\<close> does when there is one.
\<close>

definition stops_at :: "(string \<Rightarrow> bool) \<Rightarrow> string list \<Rightarrow> nat \<Rightarrow> nat \<Rightarrow> bool" where
  "stops_at T lines s j \<longleftrightarrow>
     s \<le> j \<and> (j < length lines \<longrightarrow> T (strip (lines ! j))) \<and>
     (\<forall>k \<in> {s..<j}. \<not> T (strip (lines ! k)))"

text \<open>A line that matches one of the four header patterns.\<close>

definition is_header :: "string \<Rightarrow> bool" where
  "is_header line \<longleftrightarrow>
     match_multiple_choice line \<or> match_true_or_false line \<or>
     match_short_answer line \<or> match_long_answer line"

text \<open>The string that \<open>extract_text_from_pdf\<close> returns when both extraction methods fail.\<close>

definition extraction_failed :: string where
  "extraction_failed = ''Text extraction failed for this document.''"

text \<open>
  The lines of a text that line normalization keeps: the first line, the non-empty ones
  of the lines after it, and the last line also when it is empty.
\<close>

fun kept_inner :: "string list \<Rightarrow> string list" where
  "kept_inner [] = []"
| "kept_inner [x] = [x]"
| "kept_inner (x # y # zs) = (if x = [] then kept_inner (y # zs) else x # kept_inner (y # zs))"

definition kept_lines :: "string list \<Rightarrow> string list" where
  "kept_lines ls = (case ls of [] \<Rightarrow> [] | x # xs \<Rightarrow> x # kept_inner xs)"

text \<open>Two line feeds next to each other somewhere in the text.\<close>

fun adjacent_nl :: "string \<Rightarrow> bool" where
  "adjacent_nl [] = False"
| "adjacent_nl [c] = False"
| "adjacent_nl (c # d # cs) = (c = NL \<and> d = NL \<or> adjacent_nl (d # cs))"

text \<open>The \<open>"type"\<close> entry of the questions that the section of a header line holds.\<close>

definition header_kind :: "string \<Rightarrow> string option" where
  "header_kind line =
     (if match_multiple_choice line then Some ''mcq''
      else if match_true_or_false line then Some ''true_false''
      else if match_short_answer line then Some ''short_answer''
      else if match_long_answer line then Some ''long_answer''
      else None)"

text \<open>
  The header test in the words of the specification: the trimmed line starts with the
  words of the phrase, each in any mix of cases, with a non-empty run of whitespace
  between one word and the next; what follows the last word is free. The words are
  given in lower case.
\<close>

fun phrase :: "string list \<Rightarrow> string \<Rightarrow> bool" where
  "phrase [] line = True"
| "phrase [w] line = (map lower (take (length w) line) = w)"
| "phrase (w # v # ws) line =
     (map lower (take (length w) line) = w \<and>
      (let r = drop (length w) line
       in r \<noteq> [] \<and> is_space (hd r) \<and> phrase (v # ws) (dropWhile is_space r)))"

text \<open>The four header phrases with the kinds of their sections.\<close>

definition kind_phrases :: "(string \<times> string list) list" where
  "kind_phrases =
     [(''mcq'', [''multiple'', ''choice'']),
      (''true_false'', [''true'', ''or'', ''false'']),
      (''short_answer'', [''short'', ''answer'']),
      (''long_answer'', [''long'', ''answer''])]"

definition phrase_kind :: "string \<Rightarrow> string option" where
  "phrase_kind line = map_option fst (find (\<lambda>kp. phrase (snd kp) line) kind_phrases)"

text \<open>The section parser of a kind.\<close>

definition section_parser :: "string \<Rightarrow> string list \<Rightarrow> nat \<Rightarrow> question list \<times> nat" where
  "section_parser k =
     (if k = ''mcq'' then parse_mcq_section
      else if k = ''true_false'' then parse_true_false_section
      else if k = ''short_answer'' then parse_short_answer_section
      else parse_long_answer_section)"

text \<open>
  The blocks of a list of lines: for each line that starts, after trimming, with one of
  the four header phrases, in the order of the lines, the kind of that phrase and the
  lines that follow it up to the next such line or the end of the list. The lines before
  the first header line belong to no block.
\<close>

fun blocks :: "string list \<Rightarrow> (string \<times> string list) list" where
  "blocks [] = []"
| "blocks (l # ls) =
     (case phrase_kind (strip l) of
        None \<Rightarrow> blocks ls
      | Some k \<Rightarrow> (k, takeWhile (\<lambda>x. phrase_kind (strip x) = None) ls) # blocks ls)"

section \<open>Case rules for the loops\<close>

lemma option_match_Nil [simp]: "option_match [] = None"
  by (simp add: option_match_def)

lemma question_match_Nil [simp]: "question_match [] = None"
  by (simp add: question_match_def)

lemma scan_options_stop:
  "\<not> (i < length lines \<and> c < 4) \<Longrightarrow> scan_options lines i c opts = (opts, i)"
  by (subst scan_options.simps) auto

lemma scan_options_blank:
  "i < length lines \<Longrightarrow> c < 4 \<Longrightarrow> strip (lines ! i) = [] \<Longrightarrow>
   scan_options lines i c opts = scan_options lines (Suc i) c opts"
  by (subst scan_options.simps) simp

lemma scan_options_match:
  "i < length lines \<Longrightarrow> c < 4 \<Longrightarrow> option_match (strip (lines ! i)) = Some (l, g2) \<Longrightarrow>
   scan_options lines i c opts =
     scan_options lines (Suc i) (Suc c) (opts @ [\<lparr>letter = l, otext = l @ ''. '' @ strip g2\<rparr>])"
  by (subst scan_options.simps) (auto simp: Let_def)

lemma scan_options_nomatch:
  "i < length lines \<Longrightarrow> c < 4 \<Longrightarrow> strip (lines ! i) \<noteq> [] \<Longrightarrow>
   option_match (strip (lines ! i)) = None \<Longrightarrow> scan_options lines i c opts = (opts, i)"
  by (subst scan_options.simps) simp

lemma scan_options_induct [case_names stop blank match nomatch]:
  assumes stop: "\<And>i c opts. \<not> (i < length lines \<and> c < 4) \<Longrightarrow> P i c opts"
    and blank: "\<And>i c opts. i < length lines \<Longrightarrow> c < 4 \<Longrightarrow> strip (lines ! i) = [] \<Longrightarrow>
                 P (Suc i) c opts \<Longrightarrow> P i c opts"
    and match: "\<And>i c opts l g2. i < length lines \<Longrightarrow> c < 4 \<Longrightarrow>
                 option_match (strip (lines ! i)) = Some (l, g2) \<Longrightarrow>
                 P (Suc i) (Suc c) (opts @ [\<lparr>letter = l, otext = l @ ''. '' @ strip g2\<rparr>]) \<Longrightarrow>
                 P i c opts"
    and nomatch: "\<And>i c opts. i < length lines \<Longrightarrow> c < 4 \<Longrightarrow> strip (lines ! i) \<noteq> [] \<Longrightarrow>
                 option_match (strip (lines ! i)) = None \<Longrightarrow> P i c opts"
  shows "P i c opts"
proof -
  have "ls = lines \<longrightarrow> P i c opts" for ls
  proof (induction ls i c opts rule: scan_options.induct)
    case (1 ls i c opts)
    show ?case
    proof
      assume ls: "ls = lines"
      show "P i c opts"
      proof (cases "i < length lines \<and> c < 4")
        case False
        then show ?thesis by (rule stop)
      next
        case True
        then have g: "i < length ls \<and> c < 4" and i: "i < length lines" and c: "c < 4"
          by (simp_all add: ls)
        show ?thesis
        proof (cases "strip (lines ! i) = []")
          case True
          with "1.IH"(1) [OF g refl] ls have "P (Suc i) c opts" by simp
          with i c True show ?thesis by (rule blank)
        next
          case False
          note nb = this
          show ?thesis
          proof (cases "option_match (strip (lines ! i))")
            case None
            with i c nb show ?thesis by (rule nomatch)
          next
            case (Some p)
            obtain l g2 where p: "p = (l, g2)" by (cases p)
            have m: "option_match (strip (ls ! i)) = Some (l, g2)"
              using Some p ls by simp
            from "1.IH"(2) [OF g refl _ m refl] nb ls
            have "P (Suc i) (Suc c) (opts @ [\<lparr>letter = l, otext = l @ ''. '' @ strip g2\<rparr>])"
              by simp
            with i c m [unfolded ls] show ?thesis by (rule match)
          qed
        qed
      qed
    qed
  qed
  then show ?thesis by simp
qed

lemma scan_options_length:
  "length (fst (scan_options lines i c opts)) \<le> length opts + (4 - c)"
  by (induction i c opts rule: scan_options_induct [of lines])
     (simp_all add: scan_options_stop scan_options_blank scan_options_match scan_options_nomatch)

lemma scan_options_all:
  assumes "\<And>k l g2. k < length lines \<Longrightarrow> option_match (strip (lines ! k)) = Some (l, g2)
             \<Longrightarrow> Q \<lparr>letter = l, otext = l @ ''. '' @ strip g2\<rparr>"
  shows "list_all Q opts \<Longrightarrow> list_all Q (fst (scan_options lines i c opts))"
  by (induction i c opts rule: scan_options_induct [of lines])
     (use assms in \<open>auto simp: scan_options_stop scan_options_blank scan_options_match
        scan_options_nomatch\<close>)


lemma header_Nil [simp]:
  "\<not> match_multiple_choice []" "\<not> match_true_or_false []"
  "\<not> match_short_answer []" "\<not> match_long_answer []"
  by (simp_all add: match_multiple_choice_def match_true_or_false_def
      match_short_answer_def match_long_answer_def)

lemma terminator_Nil [simp]:
  "\<not> mcq_terminator []" "\<not> true_false_terminator []"
  "\<not> short_answer_terminator []" "\<not> long_answer_terminator []"
  by (simp_all add: mcq_terminator_def true_false_terminator_def
      short_answer_terminator_def long_answer_terminator_def)

lemma mcq_loop_stop: "\<not> i < length lines \<Longrightarrow> mcq_loop lines i qs = (qs, i)"
  by (subst mcq_loop.simps) simp

lemma mcq_loop_blank:
  "i < length lines \<Longrightarrow> strip (lines ! i) = [] \<Longrightarrow>
   mcq_loop lines i qs = mcq_loop lines (Suc i) qs"
  by (subst mcq_loop.simps) simp

lemma mcq_loop_terminator:
  "i < length lines \<Longrightarrow> mcq_terminator (strip (lines ! i)) \<Longrightarrow>
   mcq_loop lines i qs = (qs, i)"
  by (subst mcq_loop.simps) (auto simp: Let_def)

lemma mcq_loop_question:
  "i < length lines \<Longrightarrow> \<not> mcq_terminator (strip (lines ! i)) \<Longrightarrow>
   question_match (strip (lines ! i)) = Some (n, g2) \<Longrightarrow>
   mcq_loop lines i qs =
     mcq_loop lines (snd (scan_options lines (Suc i) 0 []))
       (qs @ [\<lparr>number = n, qtext = n @ ''. '' @ strip g2, qtype = ''mcq'',
                options = fst (scan_options lines (Suc i) 0 [])\<rparr>])"
  by (subst mcq_loop.simps) (auto simp: Let_def)

lemma mcq_loop_skip:
  "i < length lines \<Longrightarrow> strip (lines ! i) \<noteq> [] \<Longrightarrow> \<not> mcq_terminator (strip (lines ! i)) \<Longrightarrow>
   question_match (strip (lines ! i)) = None \<Longrightarrow>
   mcq_loop lines i qs = mcq_loop lines (Suc i) qs"
  by (subst mcq_loop.simps) simp

lemmas mcq_loop_unfold =
  mcq_loop_stop mcq_loop_blank mcq_loop_terminator mcq_loop_question mcq_loop_skip

lemma mcq_loop_induct [case_names stop blank terminator question skip]:
  assumes stop: "\<And>i qs. \<not> i < length lines \<Longrightarrow> P i qs"
    and blank: "\<And>i qs. i < length lines \<Longrightarrow> strip (lines ! i) = [] \<Longrightarrow>
                 P (Suc i) qs \<Longrightarrow> P i qs"
    and terminator: "\<And>i qs. i < length lines \<Longrightarrow> mcq_terminator (strip (lines ! i)) \<Longrightarrow>
                 P i qs"
    and question: "\<And>i qs n g2. i < length lines \<Longrightarrow> \<not> mcq_terminator (strip (lines ! i)) \<Longrightarrow>
                 question_match (strip (lines ! i)) = Some (n, g2) \<Longrightarrow>
                 P (snd (scan_options lines (Suc i) 0 []))
                   (qs @ [\<lparr>number = n, qtext = n @ ''. '' @ strip g2, qtype = ''mcq'',
                            options = fst (scan_options lines (Suc i) 0 [])\<rparr>]) \<Longrightarrow>
                 P i qs"
    and skip: "\<And>i qs. i < length lines \<Longrightarrow> strip (lines ! i) \<noteq> [] \<Longrightarrow>
                 \<not> mcq_terminator (strip (lines ! i)) \<Longrightarrow>
                 question_match (strip (lines ! i)) = None \<Longrightarrow> P (Suc i) qs \<Longrightarrow> P i qs"
  shows "P i qs"
proof -
  have "ls = lines \<longrightarrow> P i qs" for ls
  proof (induction ls i qs rule: mcq_loop.induct)
    case (1 ls i qs)
    show ?case
    proof
      assume ls: "ls = lines"
      show "P i qs"
      proof (cases "i < length lines")
        case False
        then show ?thesis by (rule stop)
      next
        case True
        then have g: "i < length ls" by (simp add: ls)
        note i = True
        show ?thesis
        proof (cases "strip (lines ! i) = []")
          case True
          with "1.IH"(1) [OF g refl] ls have "P (Suc i) qs" by simp
          with i True show ?thesis by (rule blank)
        next
          case False
          note nb = this
          show ?thesis
          proof (cases "mcq_terminator (strip (lines ! i))")
            case True
            with i show ?thesis by (rule terminator)
          next
            case False
            note nt = this
            show ?thesis
            proof (cases "question_match (strip (lines ! i))")
              case None
              from "1.IH"(2) [OF g refl] nb nt None ls have "P (Suc i) qs" by simp
              with i nb nt None show ?thesis by (rule skip)
            next
              case (Some p)
              obtain n g2 where p: "p = (n, g2)" by (cases p)
              have m: "question_match (strip (ls ! i)) = Some (n, g2)"
                using Some p ls by simp
              from "1.IH"(3) [OF g refl _ _ m refl refl] nb nt ls
              have "P (snd (scan_options lines (Suc i) 0 []))
                   (qs @ [\<lparr>number = n, qtext = n @ ''. '' @ strip g2, qtype = ''mcq'',
                            options = fst (scan_options lines (Suc i) 0 [])\<rparr>])"
                by simp
              with i nt m [unfolded ls] show ?thesis by (rule question)
            qed
          qed
        qed
      qed
    qed
  qed
  then show ?thesis by simp
qed

lemma mcq_loop_all:
  assumes "\<And>k n g2. k < length lines \<Longrightarrow> question_match (strip (lines ! k)) = Some (n, g2)
             \<Longrightarrow> P \<lparr>number = n, qtext = n @ ''. '' @ strip g2, qtype = ''mcq'',
                     options = fst (scan_options lines (Suc k) 0 [])\<rparr>"
  shows "list_all P qs \<Longrightarrow> list_all P (fst (mcq_loop lines i qs))"
  by (induction i qs rule: mcq_loop_induct [of lines])
     (use assms in \<open>auto simp: mcq_loop_unfold\<close>)


lemma section_loop_stop:
  "\<not> i < length lines \<Longrightarrow> section_loop t kind lines i qs = (qs, i)"
  by (subst section_loop.simps) simp

lemma section_loop_blank:
  "i < length lines \<Longrightarrow> strip (lines ! i) = [] \<Longrightarrow>
   section_loop t kind lines i qs = section_loop t kind lines (Suc i) qs"
  by (subst section_loop.simps) simp

lemma section_loop_terminator:
  "i < length lines \<Longrightarrow> strip (lines ! i) \<noteq> [] \<Longrightarrow> t (strip (lines ! i)) \<Longrightarrow>
   section_loop t kind lines i qs = (qs, i)"
  by (subst section_loop.simps) simp

lemma section_loop_question:
  "i < length lines \<Longrightarrow> \<not> t (strip (lines ! i)) \<Longrightarrow>
   question_match (strip (lines ! i)) = Some (n, g2) \<Longrightarrow>
   section_loop t kind lines i qs =
     section_loop t kind lines (Suc i)
       (qs @ [\<lparr>number = n, qtext = n @ ''. '' @ strip g2, qtype = kind, options = []\<rparr>])"
  by (subst section_loop.simps) (auto simp: Let_def)

lemma section_loop_skip:
  "i < length lines \<Longrightarrow> strip (lines ! i) \<noteq> [] \<Longrightarrow> \<not> t (strip (lines ! i)) \<Longrightarrow>
   question_match (strip (lines ! i)) = None \<Longrightarrow>
   section_loop t kind lines i qs = section_loop t kind lines (Suc i) qs"
  by (subst section_loop.simps) simp

lemmas section_loop_unfold =
  section_loop_stop section_loop_blank section_loop_terminator section_loop_question
  section_loop_skip

lemma section_loop_induct [case_names stop blank terminator question skip]:
  assumes stop: "\<And>i qs. \<not> i < length lines \<Longrightarrow> P i qs"
    and blank: "\<And>i qs. i < length lines \<Longrightarrow> strip (lines ! i) = [] \<Longrightarrow>
                 P (Suc i) qs \<Longrightarrow> P i qs"
    and terminator: "\<And>i qs. i < length lines \<Longrightarrow> strip (lines ! i) \<noteq> [] \<Longrightarrow>
                 t (strip (lines ! i)) \<Longrightarrow> P i qs"
    and question: "\<And>i qs n g2. i < length lines \<Longrightarrow> \<not> t (strip (lines ! i)) \<Longrightarrow>
                 question_match (strip (lines ! i)) = Some (n, g2) \<Longrightarrow>
                 P (Suc i)
                   (qs @ [\<lparr>number = n, qtext = n @ ''. '' @ strip g2, qtype = kind,
                            options = []\<rparr>]) \<Longrightarrow>
                 P i qs"
    and skip: "\<And>i qs. i < length lines \<Longrightarrow> strip (lines ! i) \<noteq> [] \<Longrightarrow>
                 \<not> t (strip (lines ! i)) \<Longrightarrow>
                 question_match (strip (lines ! i)) = None \<Longrightarrow> P (Suc i) qs \<Longrightarrow> P i qs"
  shows "P i qs"
proof -
  have "t' = t \<and> k' = kind \<and> ls = lines \<longrightarrow> P i qs" for t' k' ls
  proof (induction t' k' ls i qs rule: section_loop.induct)
    case (1 t' k' ls i qs)
    show ?case
    proof
      assume eq: "t' = t \<and> k' = kind \<and> ls = lines"
      then have ls: "ls = lines" and t': "t' = t" and k': "k' = kind" by simp_all
      show "P i qs"
      proof (cases "i < length lines")
        case False
        then show ?thesis by (rule stop)
      next
        case True
        then have g: "i < length ls" by (simp add: ls)
        note i = True
        show ?thesis
        proof (cases "strip (lines ! i) = []")
          case True
          with "1.IH"(1) [OF g refl] eq have "P (Suc i) qs" by simp
          with i True show ?thesis by (rule blank)
        next
          case False
          note nb = this
          show ?thesis
          proof (cases "t (strip (lines ! i))")
            case True
            with i nb show ?thesis by (rule terminator)
          next
            case False
            note nt = this
            show ?thesis
            proof (cases "question_match (strip (lines ! i))")
              case None
              from "1.IH"(2) [OF g refl] nb nt None eq have "P (Suc i) qs" by simp
              with i nb nt None show ?thesis by (rule skip)
            next
              case (Some p)
              obtain n g2 where p: "p = (n, g2)" by (cases p)
              have m: "question_match (strip (ls ! i)) = Some (n, g2)"
                using Some p ls by simp
              from "1.IH"(3) [OF g refl _ _ m refl] nb nt eq
              have "P (Suc i)
                   (qs @ [\<lparr>number = n, qtext = n @ ''. '' @ strip g2, qtype = kind,
                            options = []\<rparr>])"
                by simp
              with i nt m [unfolded ls] show ?thesis by (rule question)
            qed
          qed
        qed
      qed
    qed
  qed
  then show ?thesis by simp
qed

lemma section_loop_all:
  assumes "\<And>k n g2. k < length lines \<Longrightarrow> question_match (strip (lines ! k)) = Some (n, g2)
             \<Longrightarrow> P \<lparr>number = n, qtext = n @ ''. '' @ strip g2, qtype = kind, options = []\<rparr>"
  shows "list_all P qs \<Longrightarrow> list_all P (fst (section_loop t kind lines i qs))"
  by (induction i qs rule: section_loop_induct [of lines _ t kind])
     (use assms in \<open>auto simp: section_loop_unfold\<close>)

lemma header_parser_Nil [simp]: "header_parser [] = None"
  by (simp add: header_parser_def)

lemma header_parser_ge:
  "header_parser line = Some p \<Longrightarrow> s \<le> snd (p lines s)"
  by (auto simp: header_parser_def parse_mcq_section_ge parse_true_false_section_ge
      parse_short_answer_section_ge parse_long_answer_section_ge split: if_splits)

lemma dispatch_stop: "\<not> i < length lines \<Longrightarrow> dispatch lines i acc = acc"
  by (subst dispatch.simps) simp

lemma dispatch_header:
  "i < length lines \<Longrightarrow> header_parser (strip (lines ! i)) = Some p \<Longrightarrow>
   dispatch lines i acc = dispatch lines (snd (p lines (Suc i))) (acc @ fst (p lines (Suc i)))"
  by (subst dispatch.simps) (auto simp: header_parser_def Let_def split: if_splits)

lemma dispatch_other:
  "i < length lines \<Longrightarrow> header_parser (strip (lines ! i)) = None \<Longrightarrow>
   dispatch lines i acc = dispatch lines (Suc i) acc"
  by (subst dispatch.simps) (auto simp: header_parser_def Let_def split: if_splits)

lemma dispatch_induct [case_names stop header other]:
  assumes stop: "\<And>i acc. \<not> i < length lines \<Longrightarrow> P i acc"
    and header: "\<And>i acc p. i < length lines \<Longrightarrow> header_parser (strip (lines ! i)) = Some p \<Longrightarrow>
                 P (snd (p lines (Suc i))) (acc @ fst (p lines (Suc i))) \<Longrightarrow> P i acc"
    and other: "\<And>i acc. i < length lines \<Longrightarrow> header_parser (strip (lines ! i)) = None \<Longrightarrow>
                 P (Suc i) acc \<Longrightarrow> P i acc"
  shows "P i acc"
proof (induction "length lines - i" arbitrary: i acc rule: less_induct)
  case (less i acc)
  show ?case
  proof (cases "i < length lines")
    case False
    then show ?thesis by (rule stop)
  next
    case True
    show ?thesis
    proof (cases "header_parser (strip (lines ! i))")
      case None
      have "P (Suc i) acc" by (rule less) (use True in simp)
      with True None show ?thesis by (rule other)
    next
      case (Some p)
      have "Suc i \<le> snd (p lines (Suc i))" using Some by (rule header_parser_ge)
      then have "P (snd (p lines (Suc i))) (acc @ fst (p lines (Suc i)))"
        using True by (intro less) arith
      with True Some show ?thesis by (rule header)
    qed
  qed
qed

lemma dispatch_all:
  assumes "\<And>s. list_all P (fst (parse_mcq_section lines s))"
    and "\<And>s. list_all P (fst (parse_true_false_section lines s))"
    and "\<And>s. list_all P (fst (parse_short_answer_section lines s))"
    and "\<And>s. list_all P (fst (parse_long_answer_section lines s))"
  shows "list_all P acc \<Longrightarrow> list_all P (dispatch lines i acc)"
proof (induction i acc rule: dispatch_induct [of lines])
  case (header i acc p)
  from header(2) assms have "list_all P (fst (p lines (Suc i)))"
    by (auto simp: header_parser_def split: if_splits)
  with header show ?case by (simp add: dispatch_header)
qed (simp_all add: dispatch_stop dispatch_other)

section \<open>Resume indices stay inside the line list\<close>

lemma scan_options_le:
  "i \<le> length lines \<Longrightarrow> snd (scan_options lines i c opts) \<le> length lines"
proof (induction lines i c opts rule: scan_options.induct)
  case (1 lines i option_count opts)
  show ?case
    using "1.IH" "1.prems"
    by (subst scan_options.simps) (fastforce simp: Let_def split: option.splits)
qed

lemma mcq_loop_le:
  "i \<le> length lines \<Longrightarrow> snd (mcq_loop lines i questions) \<le> length lines"
proof (induction lines i questions rule: mcq_loop.induct)
  case (1 lines i questions)
  have step: "i < length lines \<Longrightarrow> snd (scan_options lines (i + 1) 0 []) \<le> length lines"
    by (rule scan_options_le) simp
  show ?case
    using "1.IH" "1.prems" step
    by (subst mcq_loop.simps) (fastforce simp: Let_def split: option.splits)
qed

lemma section_loop_le:
  "i \<le> length lines \<Longrightarrow> snd (section_loop t k lines i questions) \<le> length lines"
proof (induction t k lines i questions rule: section_loop.induct)
  case (1 t k lines i questions)
  show ?case
    using "1.IH" "1.prems"
    by (subst section_loop.simps) (fastforce simp: Let_def split: option.splits)
qed

lemma skip_first_blank_le:
  "start_index \<le> length lines \<Longrightarrow> skip_first_blank lines start_index \<le> length lines"
  by (simp add: skip_first_blank_def)

text \<open>
  Claim C10. Each of the four section parsers, started at an index between 0 and the
  number of lines, returns a resume index between its start index and the number of
  lines. The dispatcher calls a parser at \<open>i + 1\<close> with \<open>i\<close> below the number of lines,
  so its cursor moves past \<open>i\<close> at every header; this is the measure that the
  termination proofs of \<open>scan_options\<close>, \<open>mcq_loop\<close>, \<open>section_loop\<close> and \<open>dispatch\<close>
  use, and with them every function of the parser is total.
\<close>

theorem resume_index_bounds:
  assumes "start_index \<le> length lines"
  shows "(start_index \<le> snd (parse_mcq_section lines start_index)
          \<and> snd (parse_mcq_section lines start_index) \<le> length lines)
       \<and> (start_index \<le> snd (parse_true_false_section lines start_index)
          \<and> snd (parse_true_false_section lines start_index) \<le> length lines)
       \<and> (start_index \<le> snd (parse_short_answer_section lines start_index)
          \<and> snd (parse_short_answer_section lines start_index) \<le> length lines)
       \<and> (start_index \<le> snd (parse_long_answer_section lines start_index)
          \<and> snd (parse_long_answer_section lines start_index) \<le> length lines)"
proof -
  have skip: "skip_first_blank lines start_index \<le> length lines"
    using assms by (rule skip_first_blank_le)
  have "snd (parse_mcq_section lines start_index) \<le> length lines"
    unfolding parse_mcq_section_def by (rule mcq_loop_le [OF skip])
  moreover have "snd (parse_true_false_section lines start_index) \<le> length lines"
    unfolding parse_true_false_section_def by (rule section_loop_le [OF skip])
  moreover have "snd (parse_short_answer_section lines start_index) \<le> length lines"
    unfolding parse_short_answer_section_def by (rule section_loop_le [OF skip])
  moreover have "snd (parse_long_answer_section lines start_index) \<le> length lines"
    unfolding parse_long_answer_section_def by (rule section_loop_le [OF skip])
  ultimately show ?thesis
    using parse_mcq_section_ge [of start_index lines]
      parse_true_false_section_ge [of start_index lines]
      parse_short_answer_section_ge [of start_index lines]
      parse_long_answer_section_ge [of start_index lines]
    by simp
qed

theorem resume_index_bounds_witness:
  "(1::nat) \<le> length [''True or False:'', ''1. The sky is blue.'', ''Short Answer'']
   \<and> 1 \<le> snd (parse_true_false_section
                [''True or False:'', ''1. The sky is blue.'', ''Short Answer''] 1)
   \<and> snd (parse_true_false_section
            [''True or False:'', ''1. The sky is blue.'', ''Short Answer''] 1) \<le> 3
   \<and> parse_true_false_section
        [''True or False:'', ''1. The sky is blue.'', ''Short Answer''] 1
       = ([\<lparr>number = ''1'', qtext = ''1. The sky is blue.'', qtype = ''true_false'',
             options = []\<rparr>], 2)"
proof -
  have run: "parse_true_false_section
        [''True or False:'', ''1. The sky is blue.'', ''Short Answer''] 1
       = ([\<lparr>number = ''1'', qtext = ''1. The sky is blue.'', qtype = ''true_false'',
             options = []\<rparr>], 2)"
    by code_simp
  have len: "(1::nat) \<le> length [''True or False:'', ''1. The sky is blue.'', ''Short Answer'']"
    by simp
  from resume_index_bounds [OF len] run len show ?thesis
    by simp
qed

section \<open>Options by kind of question\<close>

lemma mcq_questions_shape:
  "list_all (\<lambda>q. qtype q = ''mcq'' \<and> length (options q) \<le> 4) (fst (parse_mcq_section lines s))"
  unfolding parse_mcq_section_def
proof (rule mcq_loop_all)
  fix k n g2
  show "qtype \<lparr>number = n, qtext = n @ ''. '' @ strip g2, qtype = ''mcq'',
          options = fst (scan_options lines (Suc k) 0 [])\<rparr> = ''mcq'' \<and>
        length (options \<lparr>number = n, qtext = n @ ''. '' @ strip g2, qtype = ''mcq'',
          options = fst (scan_options lines (Suc k) 0 [])\<rparr>) \<le> 4"
    using scan_options_length [of lines "Suc k" 0 "[]"] by simp
qed simp

lemma plain_questions_shape:
  "list_all (\<lambda>q. qtype q = kind \<and> options q = []) (fst (section_loop t kind lines i []))"
  by (rule section_loop_all) simp_all

lemma dispatch_kind_shape: "list_all kind_shape (dispatch lines i [])"
proof (rule dispatch_all)
  fix s
  show "list_all kind_shape (fst (parse_mcq_section lines s))"
    using mcq_questions_shape [of lines s] by (auto simp: list_all_iff kind_shape_def)
  show "list_all kind_shape (fst (parse_true_false_section lines s))"
    using plain_questions_shape [of "''true_false''"]
    by (auto simp: list_all_iff kind_shape_def parse_true_false_section_def)
  show "list_all kind_shape (fst (parse_short_answer_section lines s))"
    using plain_questions_shape [of "''short_answer''"]
    by (auto simp: list_all_iff kind_shape_def parse_short_answer_section_def)
  show "list_all kind_shape (fst (parse_long_answer_section lines s))"
    using plain_questions_shape [of "''long_answer''"]
    by (auto simp: list_all_iff kind_shape_def parse_long_answer_section_def)
qed simp

text \<open>
  Claim C3. Every question that \<open>parse_questionnaire\<close> returns for a text has one of
  the four types; if its type is \<open>mcq\<close> it has at most 4 options (and at least 0, the
  length of a list), and if its type is \<open>true_false\<close>, \<open>short_answer\<close> or
  \<open>long_answer\<close> it has none.
\<close>

theorem options_length_by_kind:
  assumes "q \<in> set (parse_questionnaire text)"
  shows "(qtype q = ''mcq'' \<longrightarrow> length (options q) \<le> 4)
       \<and> (qtype q = ''true_false'' \<or> qtype q = ''short_answer'' \<or> qtype q = ''long_answer''
            \<longrightarrow> options q = [])
       \<and> qtype q \<in> {''mcq'', ''true_false'', ''short_answer'', ''long_answer''}"
proof -
  from assms dispatch_kind_shape [of "normalize_lines text" 0]
  have "kind_shape q" by (auto simp: parse_questionnaire_def list_all_iff)
  then show ?thesis by (auto simp: kind_shape_def)
qed

theorem options_length_by_kind_witness:
  "\<lparr>number = ''1'', qtext = ''1. What is 2+2?'', qtype = ''mcq'',
      options = [\<lparr>letter = ''a'', otext = ''a. 3''\<rparr>, \<lparr>letter = ''b'', otext = ''b. 4''\<rparr>,
                 \<lparr>letter = ''c'', otext = ''c. 5''\<rparr>, \<lparr>letter = ''d'', otext = ''d. 6''\<rparr>]\<rparr>
     \<in> set (parse_questionnaire
         (''Multiple Choice Questions:'' @ [NL] @ ''1. What is 2+2?'' @ [NL] @ ''a. 3'' @ [NL] @
          ''b. 4'' @ [NL] @ ''c. 5'' @ [NL] @ ''d. 6'' @ [NL] @ ''a. 7'' @ [NL]))
   \<and> length (options
        \<lparr>number = ''1'', qtext = ''1. What is 2+2?'', qtype = ''mcq'',
         options = [\<lparr>letter = ''a'', otext = ''a. 3''\<rparr>, \<lparr>letter = ''b'', otext = ''b. 4''\<rparr>,
                    \<lparr>letter = ''c'', otext = ''c. 5''\<rparr>, \<lparr>letter = ''d'', otext = ''d. 6''\<rparr>]\<rparr>)
       \<le> 4"
proof -
  have run: "parse_questionnaire
         (''Multiple Choice Questions:'' @ [NL] @ ''1. What is 2+2?'' @ [NL] @ ''a. 3'' @ [NL] @
          ''b. 4'' @ [NL] @ ''c. 5'' @ [NL] @ ''d. 6'' @ [NL] @ ''a. 7'' @ [NL]) =
    [\<lparr>number = ''1'', qtext = ''1. What is 2+2?'', qtype = ''mcq'',
      options = [\<lparr>letter = ''a'', otext = ''a. 3''\<rparr>, \<lparr>letter = ''b'', otext = ''b. 4''\<rparr>,
                 \<lparr>letter = ''c'', otext = ''c. 5''\<rparr>, \<lparr>letter = ''d'', otext = ''d. 6''\<rparr>]\<rparr>]"
    by code_simp
  have mem: "\<lparr>number = ''1'', qtext = ''1. What is 2+2?'', qtype = ''mcq'',
      options = [\<lparr>letter = ''a'', otext = ''a. 3''\<rparr>, \<lparr>letter = ''b'', otext = ''b. 4''\<rparr>,
                 \<lparr>letter = ''c'', otext = ''c. 5''\<rparr>, \<lparr>letter = ''d'', otext = ''d. 6''\<rparr>]\<rparr>
     \<in> set (parse_questionnaire
         (''Multiple Choice Questions:'' @ [NL] @ ''1. What is 2+2?'' @ [NL] @ ''a. 3'' @ [NL] @
          ''b. 4'' @ [NL] @ ''c. 5'' @ [NL] @ ''d. 6'' @ [NL] @ ''a. 7'' @ [NL]))"
    unfolding run by simp
  from options_length_by_kind [OF mem] mem show ?thesis
    by simp
qed

section \<open>The text of questions and options\<close>

lemma body_Some: "body s = Some b \<Longrightarrow> b \<noteq> [] \<and> (\<exists>rest. s = b @ rest)"
proof -
  assume a: "body s = Some b"
  then have b: "b = takeWhile (\<lambda>x. x \<noteq> NL) s" and ne: "s \<noteq> []" "hd s \<noteq> NL"
    by (auto simp: body_def split: list.splits if_splits)
  from ne have "b \<noteq> []" unfolding b by (cases s) auto
  moreover have "s = b @ dropWhile (\<lambda>x. x \<noteq> NL) s" unfolding b by simp
  ultimately show ?thesis by blast
qed

lemma delims_body_Some:
  "delims_body s = Some b \<Longrightarrow>
   b \<noteq> [] \<and> (\<exists>ds rest. s = ds @ b @ rest \<and> list_all is_delim ds)"
proof (induction s)
  case Nil
  then show ?case by (simp add: body_def)
next
  case (Cons c cs)
  show ?case
  proof (cases "is_delim c \<and> delims_body cs \<noteq> None")
    case True
    with Cons.prems have "delims_body cs = Some b" by auto
    from Cons.IH [OF this] obtain ds rest where
      "b \<noteq> []" "cs = ds @ b @ rest" "list_all is_delim ds" by blast
    with True have "c # cs = (c # ds) @ b @ rest \<and> list_all is_delim (c # ds)" by simp
    with \<open>b \<noteq> []\<close> show ?thesis by blast
  next
    case False
    with Cons.prems have "body (c # cs) = Some b" by (auto split: if_splits option.splits)
    from body_Some [OF this] obtain rest where "b \<noteq> []" "c # cs = [] @ b @ rest" by auto
    moreover have "list_all is_delim []" by simp
    ultimately show ?thesis by blast
  qed
qed

lemma delim_tail_Some:
  "delim_tail s = Some b \<Longrightarrow>
   b \<noteq> [] \<and> (\<exists>ds rest. s = ds @ b @ rest \<and> ds \<noteq> [] \<and> list_all is_delim ds)"
proof -
  assume a: "delim_tail s = Some b"
  then obtain c cs where s: "s = c # cs" and c: "is_delim c" and d: "delims_body cs = Some b"
    by (auto simp: delim_tail_def split: list.splits if_splits)
  from delims_body_Some [OF d] obtain ds rest where
    "b \<noteq> []" "cs = ds @ b @ rest" "list_all is_delim ds" by blast
  with s c have "s = (c # ds) @ b @ rest \<and> c # ds \<noteq> [] \<and> list_all is_delim (c # ds)" by simp
  with \<open>b \<noteq> []\<close> show ?thesis by blast
qed

lemma question_match_Some:
  assumes "question_match line = Some (n, b)"
  shows "n \<noteq> [] \<and> list_all is_digit n \<and> b \<noteq> [] \<and>
         (\<exists>ds rest. line = n @ ds @ b @ rest \<and> ds \<noteq> [] \<and> list_all is_delim ds)"
proof -
  from assms have n: "n = takeWhile is_digit line" and ne: "n \<noteq> []"
    and t: "delim_tail (dropWhile is_digit line) = Some b"
    by (auto simp: question_match_def Let_def split: if_splits option.splits)
  from delim_tail_Some [OF t] obtain ds rest where
    b: "b \<noteq> []" and d: "dropWhile is_digit line = ds @ b @ rest" "ds \<noteq> []" "list_all is_delim ds"
    by blast
  have "line = n @ dropWhile is_digit line" unfolding n by simp
  with d have "line = n @ ds @ b @ rest" by simp
  moreover have "list_all is_digit n" unfolding n list_all_iff by (auto dest: set_takeWhileD)
  ultimately show ?thesis using ne b d by blast
qed

lemma option_match_Some:
  assumes "option_match line = Some (l, b)"
  shows "(\<exists>c. l = [c] \<and> is_label c) \<and> b \<noteq> [] \<and>
         (\<exists>ds rest. line = l @ ds @ b @ rest \<and> ds \<noteq> [] \<and> list_all is_delim ds)"
proof -
  from assms obtain c cs where line: "line = c # cs" and c: "is_label c" and l: "l = [c]"
    and t: "delim_tail cs = Some b"
    by (auto simp: option_match_def split: list.splits if_splits option.splits)
  from delim_tail_Some [OF t] obtain ds rest where
    "b \<noteq> []" "cs = ds @ b @ rest" "ds \<noteq> []" "list_all is_delim ds" by blast
  with line l c show ?thesis by auto
qed


lemma rendered_questionI:
  assumes "k < length lines" and "question_match (strip (lines ! k)) = Some (n, g2)"
  shows "rendered_question lines
           \<lparr>number = n, qtext = n @ ''. '' @ strip g2, qtype = kind, options = os\<rparr>"
proof -
  from question_match_Some [OF assms(2)] obtain ds rest where
    "strip (lines ! k) = n @ ds @ g2 @ rest" "ds \<noteq> []" "list_all is_delim ds" by blast
  with assms show ?thesis
    unfolding rendered_question_def question.select_convs by blast
qed

lemma rendered_optionI:
  assumes "k < length lines" and "option_match (strip (lines ! k)) = Some (l, g2)"
  shows "rendered_option lines \<lparr>letter = l, otext = l @ ''. '' @ strip g2\<rparr>"
proof -
  from option_match_Some [OF assms(2)] obtain ds rest where
    "strip (lines ! k) = l @ ds @ g2 @ rest" "ds \<noteq> []" "list_all is_delim ds" by blast
  with assms show ?thesis
    unfolding rendered_option_def opt.select_convs by blast
qed

lemma scan_options_rendered:
  "list_all (rendered_option lines) (fst (scan_options lines i c []))"
  by (rule scan_options_all) (rule rendered_optionI, simp_all)

lemma mcq_rendered:
  "list_all (\<lambda>q. rendered_question lines q \<and> list_all (rendered_option lines) (options q))
     (fst (parse_mcq_section lines s))"
  unfolding parse_mcq_section_def
proof (rule mcq_loop_all)
  fix k n g2
  assume "k < length lines" and "question_match (strip (lines ! k)) = Some (n, g2)"
  then have "rendered_question lines
      \<lparr>number = n, qtext = n @ ''. '' @ strip g2, qtype = ''mcq'',
         options = fst (scan_options lines (Suc k) 0 [])\<rparr>"
    by (rule rendered_questionI)
  then show "rendered_question lines
      \<lparr>number = n, qtext = n @ ''. '' @ strip g2, qtype = ''mcq'',
         options = fst (scan_options lines (Suc k) 0 [])\<rparr> \<and>
    list_all (rendered_option lines)
      (options \<lparr>number = n, qtext = n @ ''. '' @ strip g2, qtype = ''mcq'',
         options = fst (scan_options lines (Suc k) 0 [])\<rparr>)"
    using scan_options_rendered [of lines "Suc k" 0] by simp
qed simp

lemma plain_rendered:
  "list_all (\<lambda>q. rendered_question lines q \<and> list_all (rendered_option lines) (options q))
     (fst (section_loop t kind lines i []))"
proof (rule section_loop_all)
  fix k n g2
  assume "k < length lines" and "question_match (strip (lines ! k)) = Some (n, g2)"
  then have "rendered_question lines
      \<lparr>number = n, qtext = n @ ''. '' @ strip g2, qtype = kind, options = []\<rparr>"
    by (rule rendered_questionI)
  then show "rendered_question lines
      \<lparr>number = n, qtext = n @ ''. '' @ strip g2, qtype = kind, options = []\<rparr> \<and>
    list_all (rendered_option lines)
      (options \<lparr>number = n, qtext = n @ ''. '' @ strip g2, qtype = kind, options = []\<rparr>)"
    by simp
qed simp

text \<open>
  Claim C7. Every question that one of the four section parsers emits is rendered from
  a line of the input: its text is the captured number token, then \<open>". "\<close>, then the
  trimmed captured body, whatever run of \<open>.\<close>, \<open>)\<close> and whitespace stood between the
  number and the body in the line; and so is every option of the question, with its
  label token for the number.
\<close>

theorem prompt_text_format:
  assumes "q \<in> set (fst (parse_mcq_section lines s))
             \<union> set (fst (parse_true_false_section lines s))
             \<union> set (fst (parse_short_answer_section lines s))
             \<union> set (fst (parse_long_answer_section lines s))"
  shows "rendered_question lines q \<and> (\<forall>o' \<in> set (options q). rendered_option lines o')"
  using assms mcq_rendered [of lines s] plain_rendered [of lines]
  unfolding parse_true_false_section_def parse_short_answer_section_def
    parse_long_answer_section_def list_all_iff
  by blast

theorem prompt_text_format_witness:
  "\<lparr>number = ''12'', qtext = ''12. What is 2+2?'', qtype = ''mcq'',
      options = [\<lparr>letter = ''A'', otext = ''A. 3''\<rparr>, \<lparr>letter = ''2'', otext = ''2. 4''\<rparr>]\<rparr>
     \<in> set (fst (parse_mcq_section [''12)  What is 2+2? '', ''A) 3'', ''2 4''] 0))
   \<and> rendered_question [''12)  What is 2+2? '', ''A) 3'', ''2 4'']
        \<lparr>number = ''12'', qtext = ''12. What is 2+2?'', qtype = ''mcq'',
         options = [\<lparr>letter = ''A'', otext = ''A. 3''\<rparr>, \<lparr>letter = ''2'', otext = ''2. 4''\<rparr>]\<rparr>
   \<and> rendered_option [''12)  What is 2+2? '', ''A) 3'', ''2 4'']
        \<lparr>letter = ''2'', otext = ''2. 4''\<rparr>"
proof -
  have run: "fst (parse_mcq_section [''12)  What is 2+2? '', ''A) 3'', ''2 4''] 0) =
    [\<lparr>number = ''12'', qtext = ''12. What is 2+2?'', qtype = ''mcq'',
      options = [\<lparr>letter = ''A'', otext = ''A. 3''\<rparr>, \<lparr>letter = ''2'', otext = ''2. 4''\<rparr>]\<rparr>]"
    by code_simp
  show ?thesis
    using prompt_text_format [of
        "\<lparr>number = ''12'', qtext = ''12. What is 2+2?'', qtype = ''mcq'',
          options = [\<lparr>letter = ''A'', otext = ''A. 3''\<rparr>, \<lparr>letter = ''2'', otext = ''2. 4''\<rparr>]\<rparr>"
        "[''12)  What is 2+2? '', ''A) 3'', ''2 4'']" 0]
    by (simp add: run)
qed

section \<open>Stopping at the header of another section\<close>

lemma stops_at_here: "i < length lines \<Longrightarrow> T (strip (lines ! i)) \<Longrightarrow> stops_at T lines i i"
  by (simp add: stops_at_def)

lemma stops_at_end: "\<not> i < length lines \<Longrightarrow> stops_at T lines i i"
  by (simp add: stops_at_def)

lemma stops_at_step:
  assumes "\<not> T (strip (lines ! i))" and "stops_at T lines (Suc i) j"
  shows "stops_at T lines i j"
proof -
  have "{i..<j} = insert i {Suc i..<j}" using assms(2) by (auto simp: stops_at_def)
  with assms show ?thesis by (auto simp: stops_at_def)
qed

lemma stops_at_skip:
  assumes "i \<le> m" and "\<forall>k \<in> {i..<m}. \<not> T (strip (lines ! k))" and "stops_at T lines m j"
  shows "stops_at T lines i j"
proof -
  have "k \<in> {i..<m} \<or> k \<in> {m..<j}" if "k \<in> {i..<j}" for k using that by auto
  with assms show ?thesis unfolding stops_at_def by (metis le_trans)
qed

lemma lit_ci_first: "lit_ci (p # ps) s \<noteq> None \<Longrightarrow> s \<noteq> [] \<and> lower (hd s) = lower p"
  by (cases s) (auto split: if_splits)

lemma header_first:
  "match_multiple_choice s \<Longrightarrow> s \<noteq> [] \<and> lower (hd s) = CHR ''m''"
  "match_true_or_false s \<Longrightarrow> s \<noteq> [] \<and> lower (hd s) = CHR ''t''"
  "match_short_answer s \<Longrightarrow> s \<noteq> [] \<and> lower (hd s) = CHR ''s''"
  "match_long_answer s \<Longrightarrow> s \<noteq> [] \<and> lower (hd s) = CHR ''l''"
proof -
  have low: "lower CHR ''M'' = CHR ''m''" "lower CHR ''T'' = CHR ''t''"
    "lower CHR ''S'' = CHR ''s''" "lower CHR ''L'' = CHR ''l''"
    by (simp_all add: lower_def)
  show "match_multiple_choice s \<Longrightarrow> s \<noteq> [] \<and> lower (hd s) = CHR ''m''"
    using lit_ci_first [of "CHR ''M''" "''ultiple''" s] low
    by (cases "lit_ci ''Multiple'' s") (simp_all add: match_multiple_choice_def)
  show "match_true_or_false s \<Longrightarrow> s \<noteq> [] \<and> lower (hd s) = CHR ''t''"
    using lit_ci_first [of "CHR ''T''" "''rue''" s] low
    by (cases "lit_ci ''True'' s") (simp_all add: match_true_or_false_def)
  show "match_short_answer s \<Longrightarrow> s \<noteq> [] \<and> lower (hd s) = CHR ''s''"
    using lit_ci_first [of "CHR ''S''" "''hort''" s] low
    by (cases "lit_ci ''Short'' s") (simp_all add: match_short_answer_def)
  show "match_long_answer s \<Longrightarrow> s \<noteq> [] \<and> lower (hd s) = CHR ''l''"
    using lit_ci_first [of "CHR ''L''" "''ong''" s] low
    by (cases "lit_ci ''Long'' s") (simp_all add: match_long_answer_def)
qed

lemma is_header_first:
  "is_header s \<Longrightarrow> s \<noteq> [] \<and> lower (hd s) \<in> {CHR ''m'', CHR ''t'', CHR ''s'', CHR ''l''}"
  unfolding is_header_def using header_first [of s] by auto

lemma option_line_not_header: "option_match s = Some p \<Longrightarrow> \<not> is_header s"
proof
  assume a: "option_match s = Some p" and h: "is_header s"
  from a obtain c cs where "s = c # cs" "is_label c"
    by (auto simp: option_match_def split: list.splits if_splits)
  with is_header_first [OF h] show False by (auto simp: is_label_def)
qed

lemma lower_digit: "is_digit c \<Longrightarrow> lower c = c"
  unfolding is_digit_def by (simp, elim disjE; simp add: lower_def)

lemma question_line_not_header: "question_match s = Some p \<Longrightarrow> \<not> is_header s"
proof
  assume a: "question_match s = Some p" and h: "is_header s"
  from a have "takeWhile is_digit s \<noteq> []"
    by (auto simp: question_match_def Let_def split: if_splits)
  then obtain c cs where s: "s = c # cs" and c: "is_digit c" by (cases s) (auto split: if_splits)
  from is_header_first [OF h] s lower_digit [OF c] have "c \<in> {CHR ''m'', CHR ''t'', CHR ''s'', CHR ''l''}"
    by simp
  with c show False by (auto simp: is_digit_def)
qed

lemma terminator_is_header:
  "mcq_terminator s \<Longrightarrow> is_header s" "true_false_terminator s \<Longrightarrow> is_header s"
  "short_answer_terminator s \<Longrightarrow> is_header s" "long_answer_terminator s \<Longrightarrow> is_header s"
  by (auto simp: is_header_def mcq_terminator_def true_false_terminator_def
      short_answer_terminator_def long_answer_terminator_def)

lemma ball_from_Suc:
  assumes "Q i" and "\<forall>k \<in> {Suc i..<j}. Q k"
  shows "\<forall>k \<in> {i..<j}. Q k"
proof
  fix k assume "k \<in> {i..<j}"
  then have "k = i \<or> k \<in> {Suc i..<j}" by auto
  with assms show "Q k" by blast
qed

lemma is_header_Nil [simp]: "\<not> is_header []"
  by (simp add: is_header_def)

lemma scan_options_no_header:
  "\<forall>k \<in> {i..<snd (scan_options lines i c opts)}. \<not> is_header (strip (lines ! k))"
proof (induction i c opts rule: scan_options_induct [of lines])
  case (stop i c opts)
  then show ?case by (simp add: scan_options_stop)
next
  case (blank i c opts)
  from blank(3) have "\<not> is_header (strip (lines ! i))" by simp
  then show ?case
    unfolding scan_options_blank [OF blank(1-3)] using blank(4) by (rule ball_from_Suc)
next
  case (match i c opts l g2)
  have "\<not> is_header (strip (lines ! i))" using match(3) by (rule option_line_not_header)
  then show ?case
    unfolding scan_options_match [OF match(1-3)] using match(4) by (rule ball_from_Suc)
next
  case (nomatch i c opts)
  then show ?case by (simp add: scan_options_nomatch)
qed

lemma section_loop_stops:
  assumes t: "\<And>s. t s \<Longrightarrow> is_header s"
  shows "stops_at t lines i (snd (section_loop t kind lines i qs))"
proof (induction i qs rule: section_loop_induct [of lines _ t kind])
  case (stop i qs)
  then show ?case by (simp add: section_loop_stop stops_at_end)
next
  case (blank i qs)
  have "\<not> t (strip (lines ! i))" using blank(2) t [of "[]"] by auto
  then show ?case
    unfolding section_loop_blank [where t = t, OF blank(1,2)] using blank(3) by (rule stops_at_step)
next
  case (terminator i qs)
  then show ?case by (simp add: section_loop_terminator stops_at_here)
next
  case (question i qs n g2)
  show ?case
    unfolding section_loop_question [where t = t, OF question(1-3)]
    using question(2,4) by (rule stops_at_step)
next
  case (skip i qs)
  show ?case
    unfolding section_loop_skip [where t = t, OF skip(1-4)]
    using skip(3,5) by (rule stops_at_step)
qed

lemma mcq_loop_stops: "stops_at mcq_terminator lines i (snd (mcq_loop lines i qs))"
proof (induction i qs rule: mcq_loop_induct [of lines])
  case (stop i qs)
  then show ?case by (simp add: mcq_loop_stop stops_at_end)
next
  case (blank i qs)
  have "\<not> mcq_terminator (strip (lines ! i))" using blank(2) by simp
  then show ?case
    unfolding mcq_loop_blank [OF blank(1,2)] using blank(3) by (rule stops_at_step)
next
  case (terminator i qs)
  then show ?case by (simp add: mcq_loop_terminator stops_at_here)
next
  case (question i qs n g2)
  have ge: "Suc i \<le> snd (scan_options lines (Suc i) 0 [])" by (rule scan_options_ge)
  have "\<forall>k \<in> {Suc i..<snd (scan_options lines (Suc i) 0 [])}.
          \<not> mcq_terminator (strip (lines ! k))"
    using scan_options_no_header [of "Suc i" lines 0 "[]"] terminator_is_header(1) by blast
  with ge have "stops_at mcq_terminator lines (Suc i)
      (snd (mcq_loop lines (snd (scan_options lines (Suc i) 0 []))
        (qs @ [\<lparr>number = n, qtext = n @ ''. '' @ strip g2, qtype = ''mcq'',
                 options = fst (scan_options lines (Suc i) 0 [])\<rparr>])))"
    using question(4) by (rule stops_at_skip)
  with question(2) show ?case
    unfolding mcq_loop_question [OF question(1-3)] by (rule stops_at_step)
next
  case (skip i qs)
  show ?case
    unfolding mcq_loop_skip [OF skip(1-4)]
    using skip(3,5) by (rule stops_at_step)
qed

lemma stops_at_skip_first_blank:
  assumes "\<not> T []" and "stops_at T lines (skip_first_blank lines s) j"
  shows "stops_at T lines s j"
proof (cases "s < length lines \<and> strip (lines ! s) = []")
  case True
  with assms(1) have "\<not> T (strip (lines ! s))" by simp
  moreover from True assms(2) have "stops_at T lines (Suc s) j"
    by (simp add: skip_first_blank_def)
  ultimately show ?thesis by (rule stops_at_step)
next
  case False
  with assms(2) show ?thesis by (simp add: skip_first_blank_def)
qed

lemma section_stops:
  "stops_at mcq_terminator lines s (snd (parse_mcq_section lines s))"
  "stops_at true_false_terminator lines s (snd (parse_true_false_section lines s))"
  "stops_at short_answer_terminator lines s (snd (parse_short_answer_section lines s))"
  "stops_at long_answer_terminator lines s (snd (parse_long_answer_section lines s))"
proof -
  show "stops_at mcq_terminator lines s (snd (parse_mcq_section lines s))"
    unfolding parse_mcq_section_def
    by (rule stops_at_skip_first_blank [where T = mcq_terminator, OF terminator_Nil(1) mcq_loop_stops])
  show "stops_at true_false_terminator lines s (snd (parse_true_false_section lines s))"
    unfolding parse_true_false_section_def
    by (rule stops_at_skip_first_blank [where T = true_false_terminator, OF terminator_Nil(2)
          section_loop_stops [of true_false_terminator, OF terminator_is_header(2)]])
  show "stops_at short_answer_terminator lines s (snd (parse_short_answer_section lines s))"
    unfolding parse_short_answer_section_def
    by (rule stops_at_skip_first_blank [where T = short_answer_terminator, OF terminator_Nil(3)
          section_loop_stops [of short_answer_terminator, OF terminator_is_header(3)]])
  show "stops_at long_answer_terminator lines s (snd (parse_long_answer_section lines s))"
    unfolding parse_long_answer_section_def
    by (rule stops_at_skip_first_blank [where T = long_answer_terminator, OF terminator_Nil(4)
          section_loop_stops [of long_answer_terminator, OF terminator_is_header(4)]])
qed

text \<open>
  Claim C6. Each section parser stops at the first line, from its start index on, that
  matches the header pattern of one of the three other kinds: the resume index is at
  least the start index, no line in between matches one of these three patterns, and a
  resume index inside the line list is the index of a line that matches one of them,
  left for the dispatcher.
\<close>

theorem terminator_not_consumed:
  "stops_at (\<lambda>l. match_true_or_false l \<or> match_short_answer l \<or> match_long_answer l)
     lines s (snd (parse_mcq_section lines s))
   \<and> stops_at (\<lambda>l. match_multiple_choice l \<or> match_short_answer l \<or> match_long_answer l)
     lines s (snd (parse_true_false_section lines s))
   \<and> stops_at (\<lambda>l. match_multiple_choice l \<or> match_true_or_false l \<or> match_long_answer l)
     lines s (snd (parse_short_answer_section lines s))
   \<and> stops_at (\<lambda>l. match_multiple_choice l \<or> match_true_or_false l \<or> match_short_answer l)
     lines s (snd (parse_long_answer_section lines s))"
proof -
  have "mcq_terminator = (\<lambda>l. match_true_or_false l \<or> match_short_answer l \<or> match_long_answer l)"
    and "true_false_terminator =
      (\<lambda>l. match_multiple_choice l \<or> match_short_answer l \<or> match_long_answer l)"
    and "short_answer_terminator =
      (\<lambda>l. match_multiple_choice l \<or> match_true_or_false l \<or> match_long_answer l)"
    and "long_answer_terminator =
      (\<lambda>l. match_multiple_choice l \<or> match_true_or_false l \<or> match_short_answer l)"
    by (simp_all add: fun_eq_iff mcq_terminator_def true_false_terminator_def
        short_answer_terminator_def long_answer_terminator_def)
  with section_stops [of lines s] show ?thesis by simp
qed

theorem terminator_not_consumed_witness:
  "snd (parse_mcq_section
     [''Multiple Choice'', ''1. Q'', ''a. x'', ''True or False:'', ''2. The sky is blue.''] 1) = 3
   \<and> (3::nat) < length
     [''Multiple Choice'', ''1. Q'', ''a. x'', ''True or False:'', ''2. The sky is blue.'']
   \<and> (match_true_or_false (strip
          ([''Multiple Choice'', ''1. Q'', ''a. x'', ''True or False:'', ''2. The sky is blue.''] ! 3))
      \<or> match_short_answer (strip
          ([''Multiple Choice'', ''1. Q'', ''a. x'', ''True or False:'', ''2. The sky is blue.''] ! 3))
      \<or> match_long_answer (strip
          ([''Multiple Choice'', ''1. Q'', ''a. x'', ''True or False:'', ''2. The sky is blue.''] ! 3)))
   \<and> \<not> (match_true_or_false (strip
          ([''Multiple Choice'', ''1. Q'', ''a. x'', ''True or False:'', ''2. The sky is blue.''] ! 2))
      \<or> match_short_answer (strip
          ([''Multiple Choice'', ''1. Q'', ''a. x'', ''True or False:'', ''2. The sky is blue.''] ! 2))
      \<or> match_long_answer (strip
          ([''Multiple Choice'', ''1. Q'', ''a. x'', ''True or False:'', ''2. The sky is blue.''] ! 2)))"
proof -
  have run: "snd (parse_mcq_section
     [''Multiple Choice'', ''1. Q'', ''a. x'', ''True or False:'', ''2. The sky is blue.''] 1) = 3"
    by code_simp
  from terminator_not_consumed [of
      "[''Multiple Choice'', ''1. Q'', ''a. x'', ''True or False:'', ''2. The sky is blue.'']" 1]
  have st: "stops_at (\<lambda>l. match_true_or_false l \<or> match_short_answer l \<or> match_long_answer l)
      [''Multiple Choice'', ''1. Q'', ''a. x'', ''True or False:'', ''2. The sky is blue.'']
      1 3"
    unfolding run by blast
  have len: "(3::nat) < length
      [''Multiple Choice'', ''1. Q'', ''a. x'', ''True or False:'', ''2. The sky is blue.'']"
    by simp
  have mem: "(2::nat) \<in> {1..<3}" by simp
  from st len have "match_true_or_false (strip
          ([''Multiple Choice'', ''1. Q'', ''a. x'', ''True or False:'', ''2. The sky is blue.''] ! 3))
      \<or> match_short_answer (strip
          ([''Multiple Choice'', ''1. Q'', ''a. x'', ''True or False:'', ''2. The sky is blue.''] ! 3))
      \<or> match_long_answer (strip
          ([''Multiple Choice'', ''1. Q'', ''a. x'', ''True or False:'', ''2. The sky is blue.''] ! 3))"
    unfolding stops_at_def by blast
  moreover from st mem have "\<not> (match_true_or_false (strip
          ([''Multiple Choice'', ''1. Q'', ''a. x'', ''True or False:'', ''2. The sky is blue.''] ! 2))
      \<or> match_short_answer (strip
          ([''Multiple Choice'', ''1. Q'', ''a. x'', ''True or False:'', ''2. The sky is blue.''] ! 2))
      \<or> match_long_answer (strip
          ([''Multiple Choice'', ''1. Q'', ''a. x'', ''True or False:'', ''2. The sky is blue.''] ! 2)))"
    unfolding stops_at_def by blast
  ultimately show ?thesis using run len by blast
qed

section \<open>Texts without a header\<close>

lemma header_parser_None: "header_parser line = None \<longleftrightarrow> \<not> is_header line"
  by (simp add: header_parser_def is_header_def)

lemma dispatch_no_header:
  assumes "\<forall>l \<in> set lines. \<not> is_header (strip l)"
  shows "dispatch lines i acc = acc"
proof (induction i acc rule: dispatch_induct [of lines])
  case (stop i acc)
  then show ?case by (simp add: dispatch_stop)
next
  case (header i acc p)
  from header(1) assms have "\<not> is_header (strip (lines ! i))" by simp
  with header(2) show ?case by (simp add: header_parser_None [symmetric])
next
  case (other i acc)
  then show ?case by (simp add: dispatch_other)
qed

lemma rstrip_keep:
  assumes "\<not> is_space x"
  shows "rev (dropWhile is_space (rev (a @ x # r))) = a @ x # rev (dropWhile is_space (rev r))"
  using assms by (simp add: dropWhile_append)

lemma strip_all_space: "\<forall>c \<in> set s. is_space c \<Longrightarrow> strip s = []"
proof -
  assume "\<forall>c \<in> set s. is_space c"
  then have d: "dropWhile is_space s = []"
    using dropWhile_eq_Nil_conv [of is_space s] by blast
  show ?thesis unfolding strip_def d by simp
qed

lemma strip_decompose:
  assumes "\<not> (\<forall>c \<in> set s. is_space c)"
  shows "\<exists>a x r. s = a @ x # r \<and> (\<forall>c \<in> set a. is_space c) \<and> \<not> is_space x \<and>
           strip s = x # rev (dropWhile is_space (rev r))"
proof -
  let ?a = "takeWhile is_space s" and ?d = "dropWhile is_space s"
  from assms have "?d \<noteq> []" by simp
  then obtain x r where d: "?d = x # r" by (cases ?d) auto
  then have x: "\<not> is_space x" using hd_dropWhile [of is_space s] by auto
  have s: "s = ?a @ x # r" using d by (metis takeWhile_dropWhile_id)
  have "strip s = rev (dropWhile is_space (rev ([] @ x # r)))" by (simp add: strip_def d)
  also have "\<dots> = x # rev (dropWhile is_space (rev r))"
    using rstrip_keep [OF x, of "[]" r] by simp
  finally have "strip s = x # rev (dropWhile is_space (rev r))" .
  moreover have "\<forall>c \<in> set ?a. is_space c" by (auto dest: set_takeWhileD)
  ultimately show ?thesis using s x by blast
qed

lemma strip_idem [simp]: "strip (strip s) = strip s"
proof (cases "\<forall>c \<in> set s. is_space c")
  case True
  then have "strip s = []" by (rule strip_all_space)
  moreover have "strip [] = []" by (simp add: strip_def)
  ultimately show ?thesis by simp
next
  case False
  from strip_decompose [OF this] obtain a x r where
    x: "\<not> is_space x" and st: "strip s = x # rev (dropWhile is_space (rev r))" by blast
  define t where "t = rev (dropWhile is_space (rev r))"
  have tt: "rev (dropWhile is_space (rev t)) = t"
    unfolding t_def by (simp add: dropWhile_idem)
  have "strip (x # t) = rev (dropWhile is_space (rev t @ [x]))"
    using x by (simp add: strip_def)
  also have "\<dots> = x # rev (dropWhile is_space (rev t))"
    using x by (simp add: dropWhile_append3)
  finally have "strip (x # t) = x # t" by (simp add: tt)
  then show ?thesis by (simp add: st t_def)
qed

lemma normalize_lines_stripped: "l \<in> set (normalize_lines text) \<Longrightarrow> strip l = l"
  by (auto simp: normalize_lines_def)

lemma set_sub_nl: "set (sub_nl s) \<subseteq> set s"
  by (induction s rule: sub_nl.induct) auto

lemma split_nl_nonempty [simp]: "split_nl s \<noteq> []"
  by (induction s) (auto simp: Let_def)

lemma set_split_nl: "l \<in> set (split_nl s) \<Longrightarrow> set l \<subseteq> set s"
proof (induction s arbitrary: l)
  case Nil
  then show ?case by simp
next
  case (Cons c cs)
  show ?case
  proof (cases "c = NL")
    case True
    with Cons show ?thesis by auto
  next
    case False
    obtain h t where r: "split_nl cs = h # t" by (cases "split_nl cs") simp_all
    with False Cons.prems have "l = c # h \<or> l \<in> set t" by (simp add: Let_def)
    with Cons.IH [of h] Cons.IH [of l] r show ?thesis by auto
  qed
qed

lemma whitespace_lines_blank:
  assumes "\<forall>c \<in> set text. is_space c" and "l \<in> set (normalize_lines text)"
  shows "l = []"
proof -
  from assms(2) obtain r where r: "r \<in> set (split_nl (sub_nl text))" and l: "l = strip r"
    by (auto simp: normalize_lines_def)
  from set_split_nl [OF r] set_sub_nl [of "text"] assms(1) have "\<forall>c \<in> set r. is_space c" by blast
  then show ?thesis unfolding l by (rule strip_all_space)
qed

text \<open>
  Claim C9. \<open>parse_questionnaire\<close> returns the empty list for the empty text, for every
  text none of whose normalized lines matches one of the four header patterns, and for
  every text of whitespace only.
\<close>

theorem no_header_no_questions:
  "parse_questionnaire [] = []
   \<and> ((\<forall>l \<in> set (normalize_lines text). \<not> is_header l) \<longrightarrow> parse_questionnaire text = [])
   \<and> ((\<forall>c \<in> set text. is_space c) \<longrightarrow> parse_questionnaire text = [])"
proof (intro conjI impI)
  have none: "parse_questionnaire t = []"
    if "\<forall>l \<in> set (normalize_lines t). \<not> is_header l" for t
  proof -
    from that have "\<forall>l \<in> set (normalize_lines t). \<not> is_header (strip l)"
      by (simp add: normalize_lines_stripped)
    then show ?thesis unfolding parse_questionnaire_def by (rule dispatch_no_header)
  qed
  show "parse_questionnaire [] = []"
    by (rule none) (simp add: normalize_lines_def strip_def)
  show "parse_questionnaire text = []" if "\<forall>l \<in> set (normalize_lines text). \<not> is_header l"
    using that by (rule none)
  show "parse_questionnaire text = []" if "\<forall>c \<in> set text. is_space c"
  proof (rule none)
    show "\<forall>l \<in> set (normalize_lines text). \<not> is_header l"
    proof
      fix l assume "l \<in> set (normalize_lines text)"
      with that have "l = []" by (rule whitespace_lines_blank)
      then show "\<not> is_header l" by simp
    qed
  qed
qed

theorem no_header_no_questions_witness:
  "normalize_lines (''Just some prose.'' @ [NL] @ ''3 apples'') = [''Just some prose.'', ''3 apples'']
   \<and> \<not> is_header ''Just some prose.'' \<and> \<not> is_header ''3 apples''
   \<and> parse_questionnaire (''Just some prose.'' @ [NL] @ ''3 apples'') = []
   \<and> list_all is_space ('' '' @ [NL] @ [CHR 0x09])
   \<and> parse_questionnaire ('' '' @ [NL] @ [CHR 0x09]) = []"
proof -
  have n: "normalize_lines (''Just some prose.'' @ [NL] @ ''3 apples'')
           = [''Just some prose.'', ''3 apples'']"
    by code_simp
  have h: "\<not> is_header ''Just some prose.''" "\<not> is_header ''3 apples''"
    by code_simp+
  have hyp1: "\<forall>l \<in> set (normalize_lines (''Just some prose.'' @ [NL] @ ''3 apples'')).
                \<not> is_header l"
    unfolding n using h by simp
  have sp: "list_all is_space ('' '' @ [NL] @ [CHR 0x09])"
    by code_simp
  then have hyp2: "\<forall>c \<in> set ('' '' @ [NL] @ [CHR 0x09]). is_space c"
    unfolding list_all_iff .
  from no_header_no_questions [of "''Just some prose.'' @ [NL] @ ''3 apples''"] hyp1
  have "parse_questionnaire (''Just some prose.'' @ [NL] @ ''3 apples'') = []" by blast
  moreover from no_header_no_questions [of "'' '' @ [NL] @ [CHR 0x09]"] hyp2
  have "parse_questionnaire ('' '' @ [NL] @ [CHR 0x09]) = []" by blast
  ultimately show ?thesis using n h sp by blast
qed

text \<open>
  Claim C8. The text that stands for a failed extraction is parsed as any text is: it
  normalizes to one line, that line matches no header pattern, and
  \<open>parse_questionnaire\<close> returns no question for it. No definition of the parser
  mentions the text.
\<close>

theorem extraction_failed_no_questions:
  "parse_questionnaire extraction_failed = []
   \<and> normalize_lines extraction_failed = [extraction_failed]
   \<and> \<not> is_header extraction_failed"
proof -
  have n: "normalize_lines extraction_failed = [extraction_failed]"
    by code_simp
  have h: "\<not> is_header extraction_failed"
    by code_simp
  have "\<forall>l \<in> set (normalize_lines extraction_failed). \<not> is_header (strip l)"
    using h normalize_lines_stripped [of extraction_failed extraction_failed]
    unfolding n by simp
  then have "parse_questionnaire extraction_failed = []"
    unfolding parse_questionnaire_def by (rule dispatch_no_header)
  with n h show ?thesis by blast
qed

section \<open>Fewer than four options\<close>

lemma question_line_not_blank: "question_match s = Some p \<Longrightarrow> s \<noteq> []"
  by auto

lemma question_line_not_terminator: "question_match s = Some p \<Longrightarrow> \<not> mcq_terminator s"
  using question_line_not_header terminator_is_header(1) by blast

text \<open>
  Claim C1, amended. When the line list is a header, a question line, two option lines
  and a new question line that does not match the option pattern, the option scan for
  the first question stops at the new question line without consuming it, and
  \<open>parse_mcq_section\<close> returns the first question with exactly the two options and then
  the new question with none, resuming at the end of the list.
\<close>

theorem two_options_then_question:
  assumes q1: "question_match (strip l1) = Some (n1, b1)"
    and o2: "option_match (strip l2) = Some (a2, b2)"
    and o3: "option_match (strip l3) = Some (a3, b3)"
    and q4: "question_match (strip l4) = Some (n4, b4)"
    and new: "option_match (strip l4) = None"
  shows "scan_options [h, l1, l2, l3, l4] 2 0 [] =
           ([\<lparr>letter = a2, otext = a2 @ ''. '' @ strip b2\<rparr>,
             \<lparr>letter = a3, otext = a3 @ ''. '' @ strip b3\<rparr>], 4)
       \<and> parse_mcq_section [h, l1, l2, l3, l4] 1 =
           ([\<lparr>number = n1, qtext = n1 @ ''. '' @ strip b1, qtype = ''mcq'',
               options = [\<lparr>letter = a2, otext = a2 @ ''. '' @ strip b2\<rparr>,
                          \<lparr>letter = a3, otext = a3 @ ''. '' @ strip b3\<rparr>]\<rparr>,
             \<lparr>number = n4, qtext = n4 @ ''. '' @ strip b4, qtype = ''mcq'', options = []\<rparr>],
            5)"
proof -
  define L where "L = [h, l1, l2, l3, l4]"
  define op2 where "op2 = \<lparr>letter = a2, otext = a2 @ ''. '' @ strip b2\<rparr>"
  define op3 where "op3 = \<lparr>letter = a3, otext = a3 @ ''. '' @ strip b3\<rparr>"
  have nb1: "strip l1 \<noteq> []" and nb4: "strip l4 \<noteq> []"
    using q1 q4 by (auto dest: question_line_not_blank)
  have nt1: "\<not> mcq_terminator (strip l1)" and nt4: "\<not> mcq_terminator (strip l4)"
    using q1 q4 by (auto dest: question_line_not_terminator)
  have s4: "scan_options L 4 2 [op2, op3] = ([op2, op3], 4)"
    using scan_options_nomatch [of 4 L 2 "[op2, op3]"] nb4 new by (simp add: L_def)
  have s3: "scan_options L 3 1 [op2] = scan_options L 4 2 [op2, op3]"
    using scan_options_match [of 3 L 1 a3 b3 "[op2]"] o3
    by (simp add: L_def op3_def eval_nat_numeral)
  have s2: "scan_options L 2 0 [] = scan_options L 3 1 [op2]"
    using scan_options_match [of 2 L 0 a2 b2 "[]"] o2
    by (simp add: L_def op2_def eval_nat_numeral)
  have scan: "scan_options L 2 0 [] = ([op2, op3], 4)"
    by (simp only: s2 s3 s4)
  have s5: "scan_options L 5 0 [] = ([], 5)"
    by (rule scan_options_stop) (simp add: L_def)
  have m5: "mcq_loop L 5 qs = (qs, 5)" for qs
    by (rule mcq_loop_stop) (simp add: L_def)
  have m4: "mcq_loop L 4 qs =
      (qs @ [\<lparr>number = n4, qtext = n4 @ ''. '' @ strip b4, qtype = ''mcq'', options = []\<rparr>], 5)"
    for qs
  proof -
    have "mcq_loop L 4 qs = mcq_loop L (snd (scan_options L (Suc 4) 0 []))
        (qs @ [\<lparr>number = n4, qtext = n4 @ ''. '' @ strip b4, qtype = ''mcq'',
                 options = fst (scan_options L (Suc 4) 0 [])\<rparr>])"
      by (rule mcq_loop_question) (use q4 nt4 in \<open>simp_all add: L_def\<close>)
    moreover have "Suc 4 = (5::nat)" by simp
    ultimately show ?thesis by (simp only: s5 m5 fst_conv snd_conv)
  qed
  have m1: "mcq_loop L 1 [] =
      ([\<lparr>number = n1, qtext = n1 @ ''. '' @ strip b1, qtype = ''mcq'', options = [op2, op3]\<rparr>,
        \<lparr>number = n4, qtext = n4 @ ''. '' @ strip b4, qtype = ''mcq'', options = []\<rparr>], 5)"
  proof -
    have "mcq_loop L 1 [] = mcq_loop L (snd (scan_options L (Suc 1) 0 []))
        ([] @ [\<lparr>number = n1, qtext = n1 @ ''. '' @ strip b1, qtype = ''mcq'',
                 options = fst (scan_options L (Suc 1) 0 [])\<rparr>])"
      by (rule mcq_loop_question) (use q1 nt1 in \<open>simp_all add: L_def\<close>)
    moreover have "Suc 1 = (2::nat)" by simp
    ultimately show ?thesis by (simp only: scan m4 fst_conv snd_conv append_Nil append_Cons)
  qed
  have "skip_first_blank L 1 = 1"
    using nb1 by (simp add: skip_first_blank_def L_def)
  with m1 have "parse_mcq_section L 1 =
      ([\<lparr>number = n1, qtext = n1 @ ''. '' @ strip b1, qtype = ''mcq'', options = [op2, op3]\<rparr>,
        \<lparr>number = n4, qtext = n4 @ ''. '' @ strip b4, qtype = ''mcq'', options = []\<rparr>], 5)"
    by (simp add: parse_mcq_section_def)
  with scan show ?thesis unfolding L_def op2_def op3_def by simp
qed

theorem two_options_then_question_witness:
  "question_match (strip ''1. Q'') = Some (''1'', ''Q'')
   \<and> option_match (strip ''a. x'') = Some (''a'', ''x'')
   \<and> option_match (strip ''b. y'') = Some (''b'', ''y'')
   \<and> question_match (strip ''5. Z'') = Some (''5'', ''Z'')
   \<and> option_match (strip ''5. Z'') = None
   \<and> scan_options [''Multiple Choice'', ''1. Q'', ''a. x'', ''b. y'', ''5. Z''] 2 0 [] =
       ([\<lparr>letter = ''a'', otext = ''a. x''\<rparr>, \<lparr>letter = ''b'', otext = ''b. y''\<rparr>], 4)
   \<and> parse_mcq_section [''Multiple Choice'', ''1. Q'', ''a. x'', ''b. y'', ''5. Z''] 1 =
       ([\<lparr>number = ''1'', qtext = ''1. Q'', qtype = ''mcq'',
           options = [\<lparr>letter = ''a'', otext = ''a. x''\<rparr>, \<lparr>letter = ''b'', otext = ''b. y''\<rparr>]\<rparr>,
         \<lparr>number = ''5'', qtext = ''5. Z'', qtype = ''mcq'', options = []\<rparr>], 5)"
proof -
  have q1: "question_match (strip ''1. Q'') = Some (''1'', ''Q'')" by code_simp
  have o2: "option_match (strip ''a. x'') = Some (''a'', ''x'')" by code_simp
  have o3: "option_match (strip ''b. y'') = Some (''b'', ''y'')" by code_simp
  have q4: "question_match (strip ''5. Z'') = Some (''5'', ''Z'')" by code_simp
  have new: "option_match (strip ''5. Z'') = None" by code_simp
  have st: "strip ''Q'' = ''Q''" "strip ''x'' = ''x''" "strip ''y'' = ''y''" "strip ''Z'' = ''Z''"
    by code_simp+
  from two_options_then_question [OF q1 o2 o3 q4 new, of "''Multiple Choice''"] q1 o2 o3 q4 new
  show ?thesis by (simp add: st)
qed

text \<open>
  Claim C1 as stated fails: a new question line numbered with one of the digits 1 to 4
  matches the option pattern as well, so the option scan takes it as a third option of
  the question before it and it is not emitted as a question.
\<close>

theorem two_options_then_question_counterexample:
  "question_match (strip ''1. Q'') = Some (''1'', ''Q'')
   \<and> option_match (strip ''a. x'') = Some (''a'', ''x'')
   \<and> option_match (strip ''b. y'') = Some (''b'', ''y'')
   \<and> question_match (strip ''2. Z'') = Some (''2'', ''Z'')
   \<and> parse_mcq_section [''Multiple Choice'', ''1. Q'', ''a. x'', ''b. y'', ''2. Z''] 1 =
       ([\<lparr>number = ''1'', qtext = ''1. Q'', qtype = ''mcq'',
           options = [\<lparr>letter = ''a'', otext = ''a. x''\<rparr>, \<lparr>letter = ''b'', otext = ''b. y''\<rparr>,
                      \<lparr>letter = ''2'', otext = ''2. Z''\<rparr>]\<rparr>], 5)"
  by code_simp

section \<open>Line normalization\<close>

lemma kept_inner_first: "x \<noteq> [] \<Longrightarrow> kept_inner (x # xs) = kept_lines (x # xs)"
  by (cases xs) (simp_all add: kept_lines_def)

lemma kept_inner_empty: "xs \<noteq> [] \<Longrightarrow> kept_inner ([] # xs) = kept_inner xs"
  by (cases xs) simp_all

lemma split_nl_Cons: "c \<noteq> NL \<Longrightarrow> split_nl (c # cs) = (c # hd (split_nl cs)) # tl (split_nl cs)"
  by (simp add: Let_def)

lemma split_nl_NL: "split_nl (NL # cs) = [] # split_nl cs"
  by simp

lemma split_sub_nl: "split_nl (sub_nl s) = kept_lines (split_nl s)"
proof (induction s rule: sub_nl.induct)
  case 1
  show ?case by (simp add: kept_lines_def)
next
  case (2 c)
  show ?case by (simp add: kept_lines_def Let_def)
next
  case (3 c d cs)
  obtain x xs where r: "split_nl (d # cs) = x # xs"
    using split_nl_nonempty [of "d # cs"]
    by (cases "split_nl (d # cs)") (simp_all del: split_nl.simps)
  have IH: "split_nl (sub_nl (d # cs)) = x # kept_inner xs"
    using 3 unfolding r kept_lines_def by (cases "c = NL \<and> d = NL") simp_all
  show ?case
  proof (cases "c = NL")
    case False
    have "split_nl (sub_nl (c # d # cs)) = split_nl (c # sub_nl (d # cs))"
      using False by simp
    also have "\<dots> = (c # hd (split_nl (sub_nl (d # cs)))) # tl (split_nl (sub_nl (d # cs)))"
      using False by (rule split_nl_Cons)
    also have "\<dots> = (c # x) # kept_inner xs"
      unfolding IH by simp
    also have "\<dots> = kept_lines ((c # x) # xs)"
      by (simp add: kept_lines_def)
    also have "(c # x) # xs = split_nl (c # d # cs)"
      unfolding split_nl_Cons [OF False, of "d # cs"] r by simp
    finally show ?thesis .
  next
    case True
    note c = this
    have whole: "split_nl (c # d # cs) = [] # x # xs"
      unfolding c split_nl_NL r ..
    show ?thesis
    proof (cases "d = NL")
      case True
      then have x: "x = []" and xs: "xs = split_nl cs" using r by simp_all
      have "split_nl (sub_nl (c # d # cs)) = split_nl (sub_nl (d # cs))"
        using c True by simp
      also have "\<dots> = [] # kept_inner (split_nl cs)"
        unfolding IH x xs ..
      also have "\<dots> = [] # kept_inner ([] # split_nl cs)"
        by (simp add: kept_inner_empty)
      also have "\<dots> = kept_lines (split_nl (c # d # cs))"
        unfolding whole x xs by (simp add: kept_lines_def)
      finally show ?thesis .
    next
      case False
      then have x: "x \<noteq> []" using r split_nl_Cons [OF False, of cs] by auto
      have "split_nl (sub_nl (c # d # cs)) = split_nl (NL # sub_nl (d # cs))"
        using c False by simp
      also have "\<dots> = [] # split_nl (sub_nl (d # cs))"
        by simp
      also have "\<dots> = [] # kept_lines (x # xs)"
        unfolding IH by (simp add: kept_lines_def)
      also have "\<dots> = [] # kept_inner (x # xs)"
        using x by (simp add: kept_inner_first)
      also have "\<dots> = kept_lines (split_nl (c # d # cs))"
        unfolding whole by (simp add: kept_lines_def)
      finally show ?thesis .
    qed
  qed
qed

lemma sub_nl_no_run: "\<not> adjacent_nl s \<Longrightarrow> sub_nl s = s"
  by (induction s rule: sub_nl.induct) auto

text \<open>
  Claim C2, amended. Line normalization returns, in order and trimmed, the lines of the
  text that \<open>kept_lines\<close> keeps: a line of whitespace stays as an empty string, and so
  does an empty first or last line, but an empty line between two line feeds is
  deleted by the collapse of the run. A text without two adjacent line feeds keeps
  every line at its index.
\<close>

theorem normalize_lines_kept:
  "normalize_lines text = map strip (kept_lines (split_nl text))
   \<and> (\<not> adjacent_nl text \<longrightarrow> normalize_lines text = map strip (split_nl text))"
  by (simp add: normalize_lines_def split_sub_nl sub_nl_no_run)

theorem normalize_lines_kept_witness:
  "\<not> adjacent_nl (''a'' @ [NL] @ ''  '' @ [NL] @ ''b'')
   \<and> split_nl (''a'' @ [NL] @ ''  '' @ [NL] @ ''b'') = [''a'', ''  '', ''b'']
   \<and> normalize_lines (''a'' @ [NL] @ ''  '' @ [NL] @ ''b'') = [''a'', [], ''b'']"
proof -
  have a: "\<not> adjacent_nl (''a'' @ [NL] @ ''  '' @ [NL] @ ''b'')" by code_simp
  have s: "split_nl (''a'' @ [NL] @ ''  '' @ [NL] @ ''b'') = [''a'', ''  '', ''b'']" by code_simp
  have t: "map strip [''a'', ''  '', ''b''] = [''a'', [], ''b'']" by code_simp
  from normalize_lines_kept [of "''a'' @ [NL] @ ''  '' @ [NL] @ ''b''"] a
  have "normalize_lines (''a'' @ [NL] @ ''  '' @ [NL] @ ''b'')
        = map strip (split_nl (''a'' @ [NL] @ ''  '' @ [NL] @ ''b''))" by blast
  with a s t show ?thesis by simp
qed

text \<open>
  Claim C2 as stated fails: the text \<open>a\<close>, two line feeds, \<open>b\<close> has three lines, the
  second of them blank, and normalizes to two lines, neither of them empty; the third
  line moves from index 2 to index 1.
\<close>

theorem normalize_lines_counterexample:
  "split_nl (''a'' @ [NL, NL] @ ''b'') = [''a'', [], ''b'']
   \<and> normalize_lines (''a'' @ [NL, NL] @ ''b'') = [''a'', ''b'']"
  by code_simp

section \<open>Header lines in any case and spacing\<close>

text \<open>A line in front of the list moves every index of a loop by one and changes nothing else.\<close>

lemma scan_options_shift:
  "scan_options (x # ls) (Suc i) c opts =
     (fst (scan_options ls i c opts), Suc (snd (scan_options ls i c opts)))"
proof (induction i c opts rule: scan_options_induct [of ls])
  case (stop i c opts)
  then have "\<not> (Suc i < length (x # ls) \<and> c < 4)" by simp
  then show ?case using stop by (simp add: scan_options_stop)
next
  case (blank i c opts)
  have "scan_options (x # ls) (Suc i) c opts = scan_options (x # ls) (Suc (Suc i)) c opts"
    by (rule scan_options_blank) (use blank in simp_all)
  with blank show ?case by (simp add: scan_options_blank)
next
  case (match i c opts l g2)
  have "scan_options (x # ls) (Suc i) c opts =
      scan_options (x # ls) (Suc (Suc i)) (Suc c)
        (opts @ [\<lparr>letter = l, otext = l @ ''. '' @ strip g2\<rparr>])"
    by (rule scan_options_match) (use match in simp_all)
  with match show ?case by (simp add: scan_options_match)
next
  case (nomatch i c opts)
  have "scan_options (x # ls) (Suc i) c opts = (opts, Suc i)"
    by (rule scan_options_nomatch) (use nomatch in simp_all)
  with nomatch show ?case by (simp add: scan_options_nomatch)
qed

lemma mcq_loop_shift:
  "mcq_loop (x # ls) (Suc i) qs =
     (fst (mcq_loop ls i qs), Suc (snd (mcq_loop ls i qs)))"
proof (induction i qs rule: mcq_loop_induct [of ls])
  case (stop i qs)
  then have "\<not> Suc i < length (x # ls)" by simp
  then show ?case using stop by (simp add: mcq_loop_stop)
next
  case (blank i qs)
  have "mcq_loop (x # ls) (Suc i) qs = mcq_loop (x # ls) (Suc (Suc i)) qs"
    by (rule mcq_loop_blank) (use blank in simp_all)
  with blank show ?case by (simp add: mcq_loop_blank)
next
  case (terminator i qs)
  have "mcq_loop (x # ls) (Suc i) qs = (qs, Suc i)"
    by (rule mcq_loop_terminator) (use terminator in simp_all)
  with terminator show ?case by (simp add: mcq_loop_terminator)
next
  case (question i qs n g2)
  have "mcq_loop (x # ls) (Suc i) qs =
      mcq_loop (x # ls) (snd (scan_options (x # ls) (Suc (Suc i)) 0 []))
        (qs @ [\<lparr>number = n, qtext = n @ ''. '' @ strip g2, qtype = ''mcq'',
                 options = fst (scan_options (x # ls) (Suc (Suc i)) 0 [])\<rparr>])"
    by (rule mcq_loop_question) (use question in simp_all)
  with question show ?case by (simp add: mcq_loop_question scan_options_shift)
next
  case (skip i qs)
  have "mcq_loop (x # ls) (Suc i) qs = mcq_loop (x # ls) (Suc (Suc i)) qs"
    by (rule mcq_loop_skip) (use skip in simp_all)
  with skip show ?case by (simp add: mcq_loop_skip)
qed

lemma section_loop_shift:
  "section_loop t kind (x # ls) (Suc i) qs =
     (fst (section_loop t kind ls i qs), Suc (snd (section_loop t kind ls i qs)))"
proof (induction i qs rule: section_loop_induct [of ls _ t kind])
  case (stop i qs)
  then have "\<not> Suc i < length (x # ls)" by simp
  then show ?case using stop by (simp add: section_loop_stop)
next
  case (blank i qs)
  have "section_loop t kind (x # ls) (Suc i) qs = section_loop t kind (x # ls) (Suc (Suc i)) qs"
    by (rule section_loop_blank) (use blank in simp_all)
  with blank show ?case by (simp add: section_loop_blank)
next
  case (terminator i qs)
  have "section_loop t kind (x # ls) (Suc i) qs = (qs, Suc i)"
    by (rule section_loop_terminator) (use terminator in simp_all)
  with terminator show ?case by (simp add: section_loop_terminator)
next
  case (question i qs n g2)
  have "section_loop t kind (x # ls) (Suc i) qs =
      section_loop t kind (x # ls) (Suc (Suc i))
        (qs @ [\<lparr>number = n, qtext = n @ ''. '' @ strip g2, qtype = kind, options = []\<rparr>])"
    by (rule section_loop_question) (use question in simp_all)
  with question show ?case by (simp add: section_loop_question)
next
  case (skip i qs)
  have "section_loop t kind (x # ls) (Suc i) qs = section_loop t kind (x # ls) (Suc (Suc i)) qs"
    by (rule section_loop_skip) (use skip in simp_all)
  with skip show ?case by (simp add: section_loop_skip)
qed

lemma skip_first_blank_shift:
  "skip_first_blank (x # ls) (Suc s) = Suc (skip_first_blank ls s)"
  by (simp add: skip_first_blank_def)

lemma header_parser_shift:
  assumes "header_parser line = Some p"
  shows "p (x # ls) (Suc s) = (fst (p ls s), Suc (snd (p ls s)))"
  using assms
  by (auto simp: header_parser_def parse_mcq_section_def parse_true_false_section_def
      parse_short_answer_section_def parse_long_answer_section_def skip_first_blank_shift
      mcq_loop_shift section_loop_shift split: if_splits)

lemma dispatch_shift: "dispatch (x # ls) (Suc i) acc = dispatch ls i acc"
proof (induction i acc rule: dispatch_induct [of ls])
  case (stop i acc)
  then have "\<not> Suc i < length (x # ls)" by simp
  then show ?case using stop by (simp add: dispatch_stop)
next
  case (header i acc p)
  have "dispatch (x # ls) (Suc i) acc =
      dispatch (x # ls) (snd (p (x # ls) (Suc (Suc i)))) (acc @ fst (p (x # ls) (Suc (Suc i))))"
    by (rule dispatch_header) (use header in simp_all)
  with header show ?case
    by (simp add: dispatch_header header_parser_shift [OF header(2)])
next
  case (other i acc)
  have "dispatch (x # ls) (Suc i) acc = dispatch (x # ls) (Suc (Suc i)) acc"
    by (rule dispatch_other) (use other in simp_all)
  with other show ?case by (simp add: dispatch_other)
qed

lemma sub_nl_line: "NL \<notin> set a \<Longrightarrow> sub_nl (a @ NL # rst) = a @ sub_nl (NL # rst)"
proof (induction a)
  case Nil
  show ?case by simp
next
  case (Cons c a)
  obtain d cs where r: "a @ NL # rst = d # cs" by (cases "a @ NL # rst") simp_all
  have "sub_nl (c # d # cs) = c # sub_nl (d # cs)" using Cons.prems by auto
  with Cons r show ?case by simp
qed

lemma sub_nl_NL: "\<exists>t. sub_nl (NL # rst) = NL # t"
  by (induction rst) auto

lemma split_nl_line: "NL \<notin> set a \<Longrightarrow> split_nl (a @ NL # t) = a # split_nl t"
  by (induction a) (auto simp: Let_def)

lemma normalize_lines_first:
  assumes "NL \<notin> set a"
  shows "normalize_lines (a @ NL # rst) = strip a # tl (normalize_lines (NL # rst))"
proof -
  obtain t where t: "sub_nl (NL # rst) = NL # t" using sub_nl_NL by blast
  have "split_nl (sub_nl (a @ NL # rst)) = a # split_nl t"
    by (simp only: sub_nl_line [OF assms] t split_nl_line [OF assms])
  moreover have "split_nl (sub_nl (NL # rst)) = [] # split_nl t"
    by (simp only: t split_nl_NL)
  ultimately show ?thesis by (simp add: normalize_lines_def)
qed

lemma header_line_first:
  assumes "header_parser (strip x) = Some p"
  shows "dispatch (x # ls) 0 [] = dispatch ls (snd (p ls 0)) (fst (p ls 0))"
proof -
  have "dispatch (x # ls) 0 [] =
      dispatch (x # ls) (snd (p (x # ls) (Suc 0))) ([] @ fst (p (x # ls) (Suc 0)))"
    by (rule dispatch_header) (use assms in simp_all)
  then show ?thesis
    by (simp add: header_parser_shift [OF assms] dispatch_shift)
qed

lemma lit_ci_take:
  "lit_ci p s =
     (if map lower (take (length p) s) = map lower p then Some (drop (length p) s) else None)"
  by (induction p s rule: lit_ci.induct) auto

lemma spaces1_hd:
  "spaces1 s = (if s \<noteq> [] \<and> is_space (hd s) then Some (dropWhile is_space s) else None)"
  by (cases s) (simp_all add: spaces1_def)

lemma lower_words:
  "map lower ''Multiple'' = ''multiple''" "map lower ''Choice'' = ''choice''"
  "map lower ''True'' = ''true''" "map lower ''or'' = ''or''" "map lower ''False'' = ''false''"
  "map lower ''Short'' = ''short''" "map lower ''Answer'' = ''answer''"
  "map lower ''Long'' = ''long''"
  by (simp_all add: lower_def)

lemma two_words:
  assumes "map lower p = w" and "map lower q = v"
  shows "(Option.bind (Option.bind (lit_ci p l) spaces1) (lit_ci q) \<noteq> None) = phrase [w, v] l"
proof -
  have len: "length w = length p" "length v = length q" using assms by auto
  show ?thesis
    unfolding phrase.simps len lit_ci_take spaces1_hd assms [symmetric]
    by (auto simp: Let_def)
qed

lemma three_words:
  assumes "map lower p = w" and "map lower q = v" and "map lower r = u"
  shows "(Option.bind (Option.bind (Option.bind (Option.bind
            (lit_ci p l) spaces1) (lit_ci q)) spaces1) (lit_ci r) \<noteq> None) = phrase [w, v, u] l"
proof -
  have len: "length w = length p" "length v = length q" "length u = length r"
    using assms by auto
  show ?thesis
    unfolding phrase.simps len lit_ci_take spaces1_hd assms [symmetric]
    by (auto simp: Let_def)
qed

lemma match_phrase:
  "match_multiple_choice l \<longleftrightarrow> phrase [''multiple'', ''choice''] l"
  "match_true_or_false l \<longleftrightarrow> phrase [''true'', ''or'', ''false''] l"
  "match_short_answer l \<longleftrightarrow> phrase [''short'', ''answer''] l"
  "match_long_answer l \<longleftrightarrow> phrase [''long'', ''answer''] l"
  unfolding match_multiple_choice_def match_true_or_false_def match_short_answer_def
    match_long_answer_def
  by (rule two_words three_words; rule lower_words)+

lemma phrase_kind_header: "phrase_kind l = header_kind l"
  by (simp add: phrase_kind_def kind_phrases_def header_kind_def match_phrase)

lemma header_kind_parser:
  "header_kind l = Some k \<Longrightarrow> header_parser l = Some (section_parser k)"
  by (auto simp: header_kind_def header_parser_def section_parser_def split: if_splits)


lemma phrase_kind_parser:
  "phrase_kind l = Some k \<Longrightarrow> header_parser l = Some (section_parser k)"
  unfolding phrase_kind_header by (rule header_kind_parser)

lemma header_text:
  assumes "NL \<notin> set hdr" and "phrase_kind (strip hdr) = Some k"
  shows "parse_questionnaire (hdr @ NL # rst) =
    dispatch (tl (normalize_lines (NL # rst)))
      (snd (section_parser k (tl (normalize_lines (NL # rst))) 0))
      (fst (section_parser k (tl (normalize_lines (NL # rst))) 0))"
proof -
  have "header_parser (strip (strip hdr)) = Some (section_parser k)"
    using assms(2) by (simp add: phrase_kind_parser)
  then have "dispatch (strip hdr # tl (normalize_lines (NL # rst))) 0 [] =
    dispatch (tl (normalize_lines (NL # rst)))
      (snd (section_parser k (tl (normalize_lines (NL # rst))) 0))
      (fst (section_parser k (tl (normalize_lines (NL # rst))) 0))"
    by (rule header_line_first)
  then show ?thesis
    by (simp add: parse_questionnaire_def normalize_lines_first [OF assms(1)])
qed

text \<open>
  Claim C5. Each of the four header patterns holds of a line exactly when the line
  starts with the words of its phrase in any mix of cases, with a non-empty run of
  whitespace between them; what follows the phrase is free. The dispatcher tests the
  trimmed line: at a line that starts so with the phrase of a kind, at whatever index, it
  calls the section parser of that kind from the next index and goes on from the resume
  index. So two texts that differ in their first line only, both first lines starting
  (after trimming) with the phrase of the same kind, yield the same questions.
\<close>

theorem header_case_and_spacing:
  "(match_multiple_choice l \<longleftrightarrow> phrase [''multiple'', ''choice''] l)
   \<and> (match_true_or_false l \<longleftrightarrow> phrase [''true'', ''or'', ''false''] l)
   \<and> (match_short_answer l \<longleftrightarrow> phrase [''short'', ''answer''] l)
   \<and> (match_long_answer l \<longleftrightarrow> phrase [''long'', ''answer''] l)
   \<and> (i < length lines \<and> phrase_kind (strip (lines ! i)) = Some k \<longrightarrow>
        dispatch lines i acc =
          dispatch lines (snd (section_parser k lines (Suc i)))
            (acc @ fst (section_parser k lines (Suc i))))
   \<and> (NL \<notin> set hdr \<and> NL \<notin> set hdr' \<and>
      phrase_kind (strip hdr) = Some k \<and> phrase_kind (strip hdr') = Some k \<longrightarrow>
        parse_questionnaire (hdr @ NL # rst) = parse_questionnaire (hdr' @ NL # rst))"
proof (intro conjI impI)
  show "match_multiple_choice l \<longleftrightarrow> phrase [''multiple'', ''choice''] l"
    and "match_true_or_false l \<longleftrightarrow> phrase [''true'', ''or'', ''false''] l"
    and "match_short_answer l \<longleftrightarrow> phrase [''short'', ''answer''] l"
    and "match_long_answer l \<longleftrightarrow> phrase [''long'', ''answer''] l"
    by (rule match_phrase)+
  show "dispatch lines i acc =
          dispatch lines (snd (section_parser k lines (Suc i)))
            (acc @ fst (section_parser k lines (Suc i)))"
    if "i < length lines \<and> phrase_kind (strip (lines ! i)) = Some k"
    using that by (intro dispatch_header phrase_kind_parser) simp_all
  show "parse_questionnaire (hdr @ NL # rst) = parse_questionnaire (hdr' @ NL # rst)"
    if "NL \<notin> set hdr \<and> NL \<notin> set hdr' \<and>
      phrase_kind (strip hdr) = Some k \<and> phrase_kind (strip hdr') = Some k"
    using that by (simp add: header_text)
qed

theorem header_case_and_spacing_witness:
  "phrase_kind (strip ''  MULTIPLE CHOICE'') = Some ''mcq''
   \<and> phrase_kind (strip ''multiple choice'') = Some ''mcq''
   \<and> phrase_kind (strip ''Multiple   Choice Questions:'') = Some ''mcq''
   \<and> phrase_kind (strip ''Multiple Choice'') = Some ''mcq''
   \<and> parse_questionnaire (''  MULTIPLE CHOICE'' @ NL # ''1. Q'' @ [NL] @ ''a. x'') =
     parse_questionnaire (''Multiple Choice'' @ NL # ''1. Q'' @ [NL] @ ''a. x'')
   \<and> parse_questionnaire (''multiple choice'' @ NL # ''1. Q'' @ [NL] @ ''a. x'') =
     parse_questionnaire (''Multiple Choice'' @ NL # ''1. Q'' @ [NL] @ ''a. x'')
   \<and> parse_questionnaire (''Multiple   Choice Questions:'' @ NL # ''1. Q'' @ [NL] @ ''a. x'') =
     parse_questionnaire (''Multiple Choice'' @ NL # ''1. Q'' @ [NL] @ ''a. x'')
   \<and> parse_questionnaire (''Multiple Choice'' @ NL # ''1. Q'' @ [NL] @ ''a. x'') =
     [\<lparr>number = ''1'', qtext = ''1. Q'', qtype = ''mcq'',
        options = [\<lparr>letter = ''a'', otext = ''a. x''\<rparr>]\<rparr>]
   \<and> phrase_kind (strip ([''Instructions'', ''LONG   answer (essay)'', ''7) Why?''] ! 1))
       = Some ''long_answer''
   \<and> dispatch [''Instructions'', ''LONG   answer (essay)'', ''7) Why?''] 1 [] =
     [\<lparr>number = ''7'', qtext = ''7. Why?'', qtype = ''long_answer'', options = []\<rparr>]"
proof -
  have k: "phrase_kind (strip ''  MULTIPLE CHOICE'') = Some ''mcq''"
    "phrase_kind (strip ''multiple choice'') = Some ''mcq''"
    "phrase_kind (strip ''Multiple   Choice Questions:'') = Some ''mcq''"
    "phrase_kind (strip ''Multiple Choice'') = Some ''mcq''"
    by code_simp+
  have n: "NL \<notin> set ''  MULTIPLE CHOICE''" "NL \<notin> set ''multiple choice''"
    "NL \<notin> set ''Multiple   Choice Questions:''" "NL \<notin> set ''Multiple Choice''"
    by (simp_all add: NL_def)
  have run: "parse_questionnaire (''Multiple Choice'' @ NL # ''1. Q'' @ [NL] @ ''a. x'') =
     [\<lparr>number = ''1'', qtext = ''1. Q'', qtype = ''mcq'',
        options = [\<lparr>letter = ''a'', otext = ''a. x''\<rparr>]\<rparr>]"
    by code_simp
  have kl: "phrase_kind (strip ([''Instructions'', ''LONG   answer (essay)'', ''7) Why?''] ! 1))
       = Some ''long_answer''"
    by code_simp
  have i: "(1::nat) < length [''Instructions'', ''LONG   answer (essay)'', ''7) Why?'']"
    by simp
  have rest: "dispatch [''Instructions'', ''LONG   answer (essay)'', ''7) Why?'']
      (snd (section_parser ''long_answer''
          [''Instructions'', ''LONG   answer (essay)'', ''7) Why?''] (Suc 1)))
      ([] @ fst (section_parser ''long_answer''
          [''Instructions'', ''LONG   answer (essay)'', ''7) Why?''] (Suc 1))) =
     [\<lparr>number = ''7'', qtext = ''7. Why?'', qtype = ''long_answer'', options = []\<rparr>]"
    by code_simp
  from header_case_and_spacing [of _ 1 "[''Instructions'', ''LONG   answer (essay)'', ''7) Why?'']"
      "''long_answer''" "[]"] i kl
  have d: "dispatch [''Instructions'', ''LONG   answer (essay)'', ''7) Why?''] 1 [] =
     [\<lparr>number = ''7'', qtext = ''7. Why?'', qtype = ''long_answer'', options = []\<rparr>]"
    unfolding rest [symmetric] by blast
  from header_case_and_spacing [of _ _ _ "''mcq''" _ "''  MULTIPLE CHOICE''" "''Multiple Choice''"
      "''1. Q'' @ [NL] @ ''a. x''"] k n
  have e1: "parse_questionnaire (''  MULTIPLE CHOICE'' @ NL # ''1. Q'' @ [NL] @ ''a. x'') =
     parse_questionnaire (''Multiple Choice'' @ NL # ''1. Q'' @ [NL] @ ''a. x'')"
    by blast
  from header_case_and_spacing [of _ _ _ "''mcq''" _ "''multiple choice''" "''Multiple Choice''"
      "''1. Q'' @ [NL] @ ''a. x''"] k n
  have e2: "parse_questionnaire (''multiple choice'' @ NL # ''1. Q'' @ [NL] @ ''a. x'') =
     parse_questionnaire (''Multiple Choice'' @ NL # ''1. Q'' @ [NL] @ ''a. x'')"
    by blast
  from header_case_and_spacing [of _ _ _ "''mcq''" _ "''Multiple   Choice Questions:''"
      "''Multiple Choice''" "''1. Q'' @ [NL] @ ''a. x''"] k n
  have e3: "parse_questionnaire (''Multiple   Choice Questions:'' @ NL # ''1. Q'' @ [NL] @ ''a. x'') =
     parse_questionnaire (''Multiple Choice'' @ NL # ''1. Q'' @ [NL] @ ''a. x'')"
    by blast
  from k e1 e2 e3 run kl d show ?thesis by blast
qed

section \<open>Sections in the order of their headers\<close>

text \<open>
  The dispatcher appends to its accumulator, and what it does from an index on depends on
  the lines from that index on only.
\<close>

lemma dispatch_acc: "dispatch lines i acc = acc @ dispatch lines i []"
proof -
  have "\<forall>a. dispatch lines i a = a @ dispatch lines i []" for d :: "question list"
  proof (induction i d rule: dispatch_induct [of lines])
    case (stop i d)
    then show ?case by (simp add: dispatch_stop)
  next
    case (header i d p)
    let ?j = "snd (p lines (Suc i))" and ?q = "fst (p lines (Suc i))"
    have step: "dispatch lines i a = dispatch lines ?j (a @ ?q)" for a
      using header(1,2) by (rule dispatch_header)
    have IH: "dispatch lines ?j a = a @ dispatch lines ?j []" for a
      using header(3) by blast
    show ?case
    proof
      fix a
      have "dispatch lines i a = (a @ ?q) @ dispatch lines ?j []"
        unfolding step by (rule IH)
      moreover have "dispatch lines i [] = ([] @ ?q) @ dispatch lines ?j []"
        unfolding step by (rule IH)
      ultimately show "dispatch lines i a = a @ dispatch lines i []" by simp
    qed
  next
    case (other i d)
    have step: "dispatch lines i a = dispatch lines (Suc i) a" for a
      using other(1,2) by (rule dispatch_other)
    from other(3) show ?case unfolding step .
  qed
  then show ?thesis by blast
qed

lemma dispatch_drop: "dispatch ls i acc = dispatch (drop i ls) 0 acc"
proof (induction ls arbitrary: i)
  case Nil
  show ?case by (simp add: dispatch_stop)
next
  case (Cons x ls)
  show ?case
  proof (cases i)
    case 0
    then show ?thesis by simp
  next
    case (Suc j)
    then show ?thesis using Cons [of j] by (simp add: dispatch_shift)
  qed
qed

lemma dispatch_header_line:
  assumes "header_parser (strip l) = Some p"
  shows "dispatch (l # ls) 0 [] = fst (p ls 0) @ dispatch (drop (snd (p ls 0)) ls) 0 []"
proof -
  have "dispatch (l # ls) 0 [] = dispatch ls (snd (p ls 0)) (fst (p ls 0))"
    using assms by (rule header_line_first)
  also have "\<dots> = fst (p ls 0) @ dispatch ls (snd (p ls 0)) []"
    by (rule dispatch_acc)
  also have "dispatch ls (snd (p ls 0)) [] = dispatch (drop (snd (p ls 0)) ls) 0 []"
    by (rule dispatch_drop)
  finally show ?thesis .
qed

lemma dispatch_other_line:
  assumes "\<not> is_header (strip l)"
  shows "dispatch (l # ls) 0 acc = dispatch ls 0 acc"
proof -
  have "dispatch (l # ls) 0 acc = dispatch (l # ls) (Suc 0) acc"
    by (rule dispatch_other) (use assms in \<open>simp_all add: header_parser_None\<close>)
  then show ?thesis by (simp add: dispatch_shift)
qed

lemma dispatch_skip:
  "\<forall>x \<in> set blk. \<not> is_header (strip x) \<Longrightarrow> dispatch (blk @ post) 0 acc = dispatch post 0 acc"
  by (induction blk) (simp_all add: dispatch_other_line)

lemma section_loop_acc:
  "section_loop t k lines i qs =
     (qs @ fst (section_loop t k lines i []), snd (section_loop t k lines i []))"
proof -
  have "\<forall>a. section_loop t k lines i a =
      (a @ fst (section_loop t k lines i []), snd (section_loop t k lines i []))"
    for d :: "question list"
  proof (induction i d rule: section_loop_induct [of lines _ t k])
    case (stop i d)
    then show ?case by (simp add: section_loop_stop)
  next
    case (blank i d)
    have step: "section_loop t k lines i a = section_loop t k lines (Suc i) a" for a
      using blank(1,2) by (rule section_loop_blank)
    from blank(3) show ?case unfolding step .
  next
    case (terminator i d)
    then show ?case by (simp add: section_loop_terminator)
  next
    case (question i d n g2)
    let ?q = "\<lparr>number = n, qtext = n @ ''. '' @ strip g2, qtype = k, options = []\<rparr>"
    have step: "section_loop t k lines i a = section_loop t k lines (Suc i) (a @ [?q])" for a
      using question(1-3) by (rule section_loop_question [where t = t])
    have IH: "section_loop t k lines (Suc i) a =
          (a @ fst (section_loop t k lines (Suc i) []), snd (section_loop t k lines (Suc i) []))"
      for a
      using question(4) by blast
    show ?case
    proof
      fix a
      have "section_loop t k lines i a =
          ((a @ [?q]) @ fst (section_loop t k lines (Suc i) []),
           snd (section_loop t k lines (Suc i) []))"
        unfolding step by (rule IH)
      moreover have "section_loop t k lines i [] =
          (([] @ [?q]) @ fst (section_loop t k lines (Suc i) []),
           snd (section_loop t k lines (Suc i) []))"
        unfolding step by (rule IH)
      ultimately show "section_loop t k lines i a =
          (a @ fst (section_loop t k lines i []), snd (section_loop t k lines i []))"
        by simp
    qed
  next
    case (skip i d)
    have step: "section_loop t k lines i a = section_loop t k lines (Suc i) a" for a
      using skip(1-4) by (rule section_loop_skip [where t = t])
    from skip(5) show ?case unfolding step .
  qed
  then show ?thesis by blast
qed

lemma mcq_loop_acc:
  "mcq_loop lines i qs = (qs @ fst (mcq_loop lines i []), snd (mcq_loop lines i []))"
proof -
  have "\<forall>a. mcq_loop lines i a = (a @ fst (mcq_loop lines i []), snd (mcq_loop lines i []))"
    for d :: "question list"
  proof (induction i d rule: mcq_loop_induct [of lines])
    case (stop i d)
    then show ?case by (simp add: mcq_loop_stop)
  next
    case (blank i d)
    have step: "mcq_loop lines i a = mcq_loop lines (Suc i) a" for a
      using blank(1,2) by (rule mcq_loop_blank)
    from blank(3) show ?case unfolding step .
  next
    case (terminator i d)
    then show ?case by (simp add: mcq_loop_terminator)
  next
    case (question i d n g2)
    let ?q = "\<lparr>number = n, qtext = n @ ''. '' @ strip g2, qtype = ''mcq'',
                options = fst (scan_options lines (Suc i) 0 [])\<rparr>"
    let ?j = "snd (scan_options lines (Suc i) 0 [])"
    have step: "mcq_loop lines i a = mcq_loop lines ?j (a @ [?q])" for a
      using question(1-3) by (rule mcq_loop_question)
    have IH: "mcq_loop lines ?j a =
          (a @ fst (mcq_loop lines ?j []), snd (mcq_loop lines ?j []))" for a
      using question(4) by blast
    show ?case
    proof
      fix a
      have "mcq_loop lines i a =
          ((a @ [?q]) @ fst (mcq_loop lines ?j []), snd (mcq_loop lines ?j []))"
        unfolding step by (rule IH)
      moreover have "mcq_loop lines i [] =
          (([] @ [?q]) @ fst (mcq_loop lines ?j []), snd (mcq_loop lines ?j []))"
        unfolding step by (rule IH)
      ultimately show "mcq_loop lines i a =
          (a @ fst (mcq_loop lines i []), snd (mcq_loop lines i []))"
        by simp
    qed
  next
    case (skip i d)
    have step: "mcq_loop lines i a = mcq_loop lines (Suc i) a" for a
      using skip(1-4) by (rule mcq_loop_skip)
    from skip(5) show ?case unfolding step .
  qed
  then show ?thesis by blast
qed

text \<open>
  A section parser that runs on a block of lines without a header line, followed by
  nothing or by a header line, does on the block what it does on the block alone: the
  option scan and the question loop read the lines of the block and the header line
  after it, and a header line is neither an option nor a question.
\<close>

lemma header_not_option: "is_header s \<Longrightarrow> s \<noteq> [] \<and> option_match s = None"
  using option_line_not_header [of s] by (cases "option_match s") auto

lemma header_not_question: "is_header s \<Longrightarrow> question_match s = None"
  using question_line_not_header [of s] by (cases "question_match s") auto

lemma scan_options_local:
  assumes post: "post = [] \<or> is_header (strip (hd post))"
  shows "i \<le> length blk \<Longrightarrow> scan_options (blk @ post) i c opts = scan_options blk i c opts"
proof (induction i c opts rule: scan_options_induct [of blk])
  case (stop i c opts)
  have "scan_options (blk @ post) i c opts = (opts, i)"
  proof (cases "i < length (blk @ post) \<and> c < 4")
    case False
    then show ?thesis by (rule scan_options_stop)
  next
    case True
    with stop have i: "i = length blk" and p: "post \<noteq> []" by auto
    with post have h: "is_header (strip (hd post))" by simp
    have line: "(blk @ post) ! i = hd post" using i p by (simp add: nth_append hd_conv_nth)
    show ?thesis
      by (rule scan_options_nomatch) (use True header_not_option [OF h] line in simp_all)
  qed
  with stop show ?case by (simp add: scan_options_stop)
next
  case (blank i c opts)
  have "scan_options (blk @ post) i c opts = scan_options (blk @ post) (Suc i) c opts"
    by (rule scan_options_blank) (use blank in \<open>simp_all add: nth_append\<close>)
  with blank show ?case by (simp add: scan_options_blank)
next
  case (match i c opts l g2)
  have "scan_options (blk @ post) i c opts =
      scan_options (blk @ post) (Suc i) (Suc c)
        (opts @ [\<lparr>letter = l, otext = l @ ''. '' @ strip g2\<rparr>])"
    by (rule scan_options_match) (use match in \<open>simp_all add: nth_append\<close>)
  with match show ?case by (simp add: scan_options_match)
next
  case (nomatch i c opts)
  have "scan_options (blk @ post) i c opts = (opts, i)"
    by (rule scan_options_nomatch) (use nomatch in \<open>simp_all add: nth_append\<close>)
  with nomatch show ?case by (simp add: scan_options_nomatch)
qed

lemma mcq_loop_local:
  assumes blk: "\<forall>x \<in> set blk. \<not> is_header (strip x)"
    and post: "post = [] \<or> is_header (strip (hd post))"
  shows "i \<le> length blk \<Longrightarrow>
    mcq_loop (blk @ post) i qs = mcq_loop (blk @ post) (length blk) (fst (mcq_loop blk i qs))"
proof (induction i qs rule: mcq_loop_induct [of blk])
  case (stop i qs)
  then show ?case by (simp add: mcq_loop_stop)
next
  case (blank i qs)
  have "mcq_loop (blk @ post) i qs = mcq_loop (blk @ post) (Suc i) qs"
    by (rule mcq_loop_blank) (use blank in \<open>simp_all add: nth_append\<close>)
  with blank show ?case by (simp add: mcq_loop_blank)
next
  case (terminator i qs)
  with blk terminator_is_header(1) show ?case by (metis nth_mem)
next
  case (question i qs n g2)
  have scan: "scan_options (blk @ post) (Suc i) 0 [] = scan_options blk (Suc i) 0 []"
    using post by (rule scan_options_local) (use question in simp)
  have j: "snd (scan_options blk (Suc i) 0 []) \<le> length blk"
    by (rule scan_options_le) (use question in simp)
  have "mcq_loop (blk @ post) i qs =
      mcq_loop (blk @ post) (snd (scan_options (blk @ post) (Suc i) 0 []))
        (qs @ [\<lparr>number = n, qtext = n @ ''. '' @ strip g2, qtype = ''mcq'',
                 options = fst (scan_options (blk @ post) (Suc i) 0 [])\<rparr>])"
    by (rule mcq_loop_question) (use question in \<open>simp_all add: nth_append\<close>)
  with question(4) j show ?case
    unfolding scan mcq_loop_question [OF question(1-3)] by simp
next
  case (skip i qs)
  have "mcq_loop (blk @ post) i qs = mcq_loop (blk @ post) (Suc i) qs"
    by (rule mcq_loop_skip) (use skip in \<open>simp_all add: nth_append\<close>)
  with skip show ?case by (simp add: mcq_loop_skip)
qed

lemma section_loop_local:
  assumes t: "\<And>s. t s \<Longrightarrow> is_header s"
    and blk: "\<forall>x \<in> set blk. \<not> is_header (strip x)"
  shows "i \<le> length blk \<Longrightarrow>
    section_loop t k (blk @ post) i qs =
      section_loop t k (blk @ post) (length blk) (fst (section_loop t k blk i qs))"
proof (induction i qs rule: section_loop_induct [of blk _ t k])
  case (stop i qs)
  then show ?case by (simp add: section_loop_stop)
next
  case (blank i qs)
  have "section_loop t k (blk @ post) i qs = section_loop t k (blk @ post) (Suc i) qs"
    by (rule section_loop_blank) (use blank in \<open>simp_all add: nth_append\<close>)
  with blank show ?case by (simp add: section_loop_blank)
next
  case (terminator i qs)
  with blk t show ?case by (metis nth_mem)
next
  case (question i qs n g2)
  have "section_loop t k (blk @ post) i qs =
      section_loop t k (blk @ post) (Suc i)
        (qs @ [\<lparr>number = n, qtext = n @ ''. '' @ strip g2, qtype = k, options = []\<rparr>])"
    by (rule section_loop_question) (use question in \<open>simp_all add: nth_append\<close>)
  with question(1,4) show ?case
    unfolding section_loop_question [where t = t, OF question(1-3)] by simp
next
  case (skip i qs)
  have "section_loop t k (blk @ post) i qs = section_loop t k (blk @ post) (Suc i) qs"
    by (rule section_loop_skip) (use skip in \<open>simp_all add: nth_append\<close>)
  with skip show ?case by (simp add: section_loop_skip)
qed


text \<open>
  What a section loop \<open>L\<close> with terminator pattern \<open>T\<close> returns on a block of lines with
  no header line, followed by nothing or by a header line.
\<close>

lemma block_split:
  fixes L :: "string list \<Rightarrow> nat \<Rightarrow> question list \<Rightarrow> question list \<times> nat"
  assumes loc: "L (blk @ post) 0 [] = L (blk @ post) (length blk) (fst (L blk 0 []))"
    and shift: "\<And>x ls i qs. L (x # ls) (Suc i) qs = (fst (L ls i qs), Suc (snd (L ls i qs)))"
    and nil: "\<And>qs. L [] 0 qs = (qs, 0)"
    and halt: "\<And>h rest qs. T (strip h) \<Longrightarrow> L (h # rest) 0 qs = (qs, 0)"
    and own: "\<And>h rest qs. is_header (strip h) \<Longrightarrow> \<not> T (strip h) \<Longrightarrow>
               L (h # rest) 0 qs = L (h # rest) (Suc 0) qs"
    and acc: "\<And>ls i qs. L ls i qs = (qs @ fst (L ls i []), snd (L ls i []))"
    and post: "post = [] \<or> is_header (strip (hd post))"
  shows "L (blk @ post) 0 [] =
    (case post of
       [] \<Rightarrow> (fst (L blk 0 []), length blk)
     | h # rest \<Rightarrow>
         if T (strip h) then (fst (L blk 0 []), length blk)
         else (fst (L blk 0 []) @ fst (L rest 0 []), length blk + Suc (snd (L rest 0 []))))"
proof -
  have pre: "L (pre @ ls) (length pre + i) qs = (fst (L ls i qs), length pre + snd (L ls i qs))"
    for pre ls i qs
    by (induction pre) (simp_all add: shift)
  have at: "L (blk @ post) 0 [] =
      (fst (L post 0 (fst (L blk 0 []))), length blk + snd (L post 0 (fst (L blk 0 []))))"
    unfolding loc using pre [of blk post 0] by simp
  show ?thesis
  proof (cases post)
    case Nil
    then show ?thesis using at by (simp add: nil)
  next
    case (Cons h rest)
    with post have h: "is_header (strip h)" by simp
    show ?thesis
    proof (cases "T (strip h)")
      case True
      then show ?thesis using at unfolding Cons by (simp add: halt)
    next
      case False
      have "L (h # rest) 0 qs = (qs @ fst (L rest 0 []), Suc (snd (L rest 0 [])))" for qs
        unfolding own [OF h False] shift using acc [of rest 0 qs] by simp
      with False at show ?thesis unfolding Cons by simp
    qed
  qed
qed

lemma mcq_loop_skip_first_blank:
  "mcq_loop ls (skip_first_blank ls s) qs = mcq_loop ls s qs"
  by (simp add: skip_first_blank_def mcq_loop_blank)

lemma section_loop_skip_first_blank:
  "section_loop t k ls (skip_first_blank ls s) qs = section_loop t k ls s qs"
  by (simp add: skip_first_blank_def section_loop_blank)

lemma mcq_block:
  assumes blk: "\<forall>x \<in> set blk. \<not> is_header (strip x)"
    and post: "post = [] \<or> is_header (strip (hd post))"
  shows "mcq_loop (blk @ post) 0 [] =
    (case post of
       [] \<Rightarrow> (fst (mcq_loop blk 0 []), length blk)
     | h # rest \<Rightarrow>
         if mcq_terminator (strip h) then (fst (mcq_loop blk 0 []), length blk)
         else (fst (mcq_loop blk 0 []) @ fst (mcq_loop rest 0 []),
               length blk + Suc (snd (mcq_loop rest 0 []))))"
proof (rule block_split)
  show "mcq_loop (blk @ post) 0 [] = mcq_loop (blk @ post) (length blk) (fst (mcq_loop blk 0 []))"
    using blk post by (rule mcq_loop_local) simp
  show "mcq_loop (x # ls) (Suc i) qs = (fst (mcq_loop ls i qs), Suc (snd (mcq_loop ls i qs)))"
    for x ls i qs
    by (rule mcq_loop_shift)
  show "mcq_loop [] 0 qs = (qs, 0)" for qs
    by (simp add: mcq_loop_stop)
  show "mcq_loop (h # rest) 0 qs = (qs, 0)" if "mcq_terminator (strip h)" for h rest qs
    by (rule mcq_loop_terminator) (use that in simp_all)
  show "mcq_loop (h # rest) 0 qs = mcq_loop (h # rest) (Suc 0) qs"
    if "is_header (strip h)" and "\<not> mcq_terminator (strip h)" for h rest qs
    by (rule mcq_loop_skip) (use that header_not_question [of "strip h"] in auto)
  show "mcq_loop ls i qs = (qs @ fst (mcq_loop ls i []), snd (mcq_loop ls i []))" for ls i qs
    by (rule mcq_loop_acc)
  show "post = [] \<or> is_header (strip (hd post))" by (rule post)
qed

lemma section_block:
  assumes t: "\<And>s. t s \<Longrightarrow> is_header s"
    and blk: "\<forall>x \<in> set blk. \<not> is_header (strip x)"
    and post: "post = [] \<or> is_header (strip (hd post))"
  shows "section_loop t k (blk @ post) 0 [] =
    (case post of
       [] \<Rightarrow> (fst (section_loop t k blk 0 []), length blk)
     | h # rest \<Rightarrow>
         if t (strip h) then (fst (section_loop t k blk 0 []), length blk)
         else (fst (section_loop t k blk 0 []) @ fst (section_loop t k rest 0 []),
               length blk + Suc (snd (section_loop t k rest 0 []))))"
proof (rule block_split)
  show "section_loop t k (blk @ post) 0 [] =
      section_loop t k (blk @ post) (length blk) (fst (section_loop t k blk 0 []))"
    by (rule section_loop_local) (use t blk in auto)
  show "section_loop t k (x # ls) (Suc i) qs =
      (fst (section_loop t k ls i qs), Suc (snd (section_loop t k ls i qs)))" for x ls i qs
    by (rule section_loop_shift)
  show "section_loop t k [] 0 qs = (qs, 0)" for qs
    by (simp add: section_loop_stop)
  show "section_loop t k (h # rest) 0 qs = (qs, 0)" if "t (strip h)" for h rest qs
    by (rule section_loop_terminator) (use that t [of "strip h"] in auto)
  show "section_loop t k (h # rest) 0 qs = section_loop t k (h # rest) (Suc 0) qs"
    if "is_header (strip h)" and "\<not> t (strip h)" for h rest qs
    by (rule section_loop_skip) (use that header_not_question [of "strip h"] in auto)
  show "section_loop t k ls i qs =
      (qs @ fst (section_loop t k ls i []), snd (section_loop t k ls i []))" for ls i qs
    by (rule section_loop_acc)
  show "post = [] \<or> is_header (strip (hd post))" by (rule post)
qed

lemma dispatch_block:
  fixes L :: "string list \<Rightarrow> nat \<Rightarrow> question list \<Rightarrow> question list \<times> nat"
  assumes hp: "header_parser (strip l) = Some p"
    and pL: "\<And>ls. p ls 0 = L ls 0 []"
    and split: "L (blk @ post) 0 [] =
      (case post of
         [] \<Rightarrow> (fst (L blk 0 []), length blk)
       | h # rest \<Rightarrow>
           if T (strip h) then (fst (L blk 0 []), length blk)
           else (fst (L blk 0 []) @ fst (L rest 0 []), length blk + Suc (snd (L rest 0 []))))"
    and own: "\<And>h. is_header (strip h) \<Longrightarrow> \<not> T (strip h) \<Longrightarrow> header_parser (strip h) = Some p"
    and post: "post = [] \<or> is_header (strip (hd post))"
  shows "dispatch (l # blk @ post) 0 [] = fst (p blk 0) @ dispatch post 0 []"
proof -
  have first: "dispatch (l # blk @ post) 0 [] =
      fst (L (blk @ post) 0 []) @ dispatch (drop (snd (L (blk @ post) 0 [])) (blk @ post)) 0 []"
    using dispatch_header_line [OF hp, of "blk @ post"] by (simp add: pL)
  show ?thesis
  proof (cases post)
    case Nil
    with arg_cong [OF split, of snd] have "snd (L blk 0 []) = length blk" by simp
    with first Nil show ?thesis by (simp add: pL dispatch_stop)
  next
    case (Cons h rest)
    with post have h: "is_header (strip h)" by simp
    show ?thesis
    proof (cases "T (strip h)")
      case True
      with split Cons have "L (blk @ post) 0 [] = (fst (L blk 0 []), length blk)" by simp
      with first show ?thesis by (simp add: pL)
    next
      case False
      with split Cons have "L (blk @ post) 0 [] =
          (fst (L blk 0 []) @ fst (L rest 0 []), length blk + Suc (snd (L rest 0 [])))"
        by simp
      with first Cons have "dispatch (l # blk @ post) 0 [] =
          fst (L blk 0 []) @ fst (L rest 0 []) @ dispatch (drop (snd (L rest 0 [])) rest) 0 []"
        by simp
      moreover have "dispatch (h # rest) 0 [] =
          fst (L rest 0 []) @ dispatch (drop (snd (L rest 0 [])) rest) 0 []"
        using dispatch_header_line [OF own [OF h False], of rest] by (simp add: pL)
      ultimately show ?thesis using Cons by (simp add: pL)
    qed
  qed
qed

lemma dispatch_section:
  assumes hp: "header_parser (strip l) = Some p"
    and blk: "\<forall>x \<in> set blk. \<not> is_header (strip x)"
    and post: "post = [] \<or> is_header (strip (hd post))"
  shows "dispatch (l # blk @ post) 0 [] = fst (p blk 0) @ dispatch post 0 []"
proof -
  from hp consider
      (mcq) "p = parse_mcq_section"
    | (tf) "p = parse_true_false_section"
    | (sa) "p = parse_short_answer_section"
    | (la) "p = parse_long_answer_section"
    by (auto simp: header_parser_def split: if_splits)
  then show ?thesis
  proof cases
    case mcq
    show ?thesis
    proof (rule dispatch_block [where L = mcq_loop and T = mcq_terminator, OF hp _ _ _ post])
      show "p ls 0 = mcq_loop ls 0 []" for ls
        by (simp add: mcq parse_mcq_section_def mcq_loop_skip_first_blank)
      show "mcq_loop (blk @ post) 0 [] =
        (case post of
           [] \<Rightarrow> (fst (mcq_loop blk 0 []), length blk)
         | h # rest \<Rightarrow>
             if mcq_terminator (strip h) then (fst (mcq_loop blk 0 []), length blk)
             else (fst (mcq_loop blk 0 []) @ fst (mcq_loop rest 0 []),
                   length blk + Suc (snd (mcq_loop rest 0 []))))"
        using blk post by (rule mcq_block)
      show "header_parser (strip h) = Some p"
        if "is_header (strip h)" and "\<not> mcq_terminator (strip h)" for h
        using that by (simp add: mcq is_header_def mcq_terminator_def header_parser_def)
    qed
  next
    case tf
    show ?thesis
    proof (rule dispatch_block [where L = "section_loop true_false_terminator ''true_false''"
          and T = true_false_terminator, OF hp _ _ _ post])
      show "p ls 0 = section_loop true_false_terminator ''true_false'' ls 0 []" for ls
        by (simp add: tf parse_true_false_section_def section_loop_skip_first_blank)
      show "section_loop true_false_terminator ''true_false'' (blk @ post) 0 [] =
        (case post of
           [] \<Rightarrow> (fst (section_loop true_false_terminator ''true_false'' blk 0 []), length blk)
         | h # rest \<Rightarrow>
             if true_false_terminator (strip h)
             then (fst (section_loop true_false_terminator ''true_false'' blk 0 []), length blk)
             else (fst (section_loop true_false_terminator ''true_false'' blk 0 []) @
                   fst (section_loop true_false_terminator ''true_false'' rest 0 []),
                   length blk + Suc (snd (section_loop true_false_terminator ''true_false'' rest 0 []))))"
        using terminator_is_header(2) blk post by (rule section_block)
      show "header_parser (strip h) = Some p"
        if "is_header (strip h)" and "\<not> true_false_terminator (strip h)" for h
        using that by (simp add: tf is_header_def true_false_terminator_def header_parser_def)
    qed
  next
    case sa
    show ?thesis
    proof (rule dispatch_block [where L = "section_loop short_answer_terminator ''short_answer''"
          and T = short_answer_terminator, OF hp _ _ _ post])
      show "p ls 0 = section_loop short_answer_terminator ''short_answer'' ls 0 []" for ls
        by (simp add: sa parse_short_answer_section_def section_loop_skip_first_blank)
      show "section_loop short_answer_terminator ''short_answer'' (blk @ post) 0 [] =
        (case post of
           [] \<Rightarrow> (fst (section_loop short_answer_terminator ''short_answer'' blk 0 []), length blk)
         | h # rest \<Rightarrow>
             if short_answer_terminator (strip h)
             then (fst (section_loop short_answer_terminator ''short_answer'' blk 0 []), length blk)
             else (fst (section_loop short_answer_terminator ''short_answer'' blk 0 []) @
                   fst (section_loop short_answer_terminator ''short_answer'' rest 0 []),
                   length blk + Suc (snd (section_loop short_answer_terminator ''short_answer'' rest 0 []))))"
        using terminator_is_header(3) blk post by (rule section_block)
      show "header_parser (strip h) = Some p"
        if "is_header (strip h)" and "\<not> short_answer_terminator (strip h)" for h
        using that by (simp add: sa is_header_def short_answer_terminator_def header_parser_def)
    qed
  next
    case la
    show ?thesis
    proof (rule dispatch_block [where L = "section_loop long_answer_terminator ''long_answer''"
          and T = long_answer_terminator, OF hp _ _ _ post])
      show "p ls 0 = section_loop long_answer_terminator ''long_answer'' ls 0 []" for ls
        by (simp add: la parse_long_answer_section_def section_loop_skip_first_blank)
      show "section_loop long_answer_terminator ''long_answer'' (blk @ post) 0 [] =
        (case post of
           [] \<Rightarrow> (fst (section_loop long_answer_terminator ''long_answer'' blk 0 []), length blk)
         | h # rest \<Rightarrow>
             if long_answer_terminator (strip h)
             then (fst (section_loop long_answer_terminator ''long_answer'' blk 0 []), length blk)
             else (fst (section_loop long_answer_terminator ''long_answer'' blk 0 []) @
                   fst (section_loop long_answer_terminator ''long_answer'' rest 0 []),
                   length blk + Suc (snd (section_loop long_answer_terminator ''long_answer'' rest 0 []))))"
        using terminator_is_header(4) blk post by (rule section_block)
      show "header_parser (strip h) = Some p"
        if "is_header (strip h)" and "\<not> long_answer_terminator (strip h)" for h
        using that by (simp add: la is_header_def long_answer_terminator_def header_parser_def)
    qed
  qed
qed

lemma phrase_kind_None: "phrase_kind s = None \<longleftrightarrow> \<not> is_header s"
  by (simp add: phrase_kind_header header_kind_def is_header_def)

lemma dispatch_blocks:
  "dispatch ls 0 [] = concat (map (\<lambda>b. fst (section_parser (fst b) (snd b) 0)) (blocks ls))"
proof (induction ls)
  case Nil
  show ?case by (simp add: dispatch_stop)
next
  case (Cons l ls)
  show ?case
  proof (cases "phrase_kind (strip l)")
    case None
    then have "\<not> is_header (strip l)" by (simp add: phrase_kind_None)
    then have "dispatch (l # ls) 0 [] = dispatch ls 0 []" by (rule dispatch_other_line)
    with None Cons show ?thesis by simp
  next
    case (Some k)
    let ?P = "\<lambda>x. phrase_kind (strip x) = None"
    let ?blk = "takeWhile ?P ls" and ?post = "dropWhile ?P ls"
    have hp: "header_parser (strip l) = Some (section_parser k)"
      using Some by (rule phrase_kind_parser)
    have blk: "\<forall>x \<in> set ?blk. \<not> is_header (strip x)"
      using set_takeWhileD [of _ ?P ls] by (auto simp: phrase_kind_None)
    have post: "?post = [] \<or> is_header (strip (hd ?post))"
      using hd_dropWhile [of ?P ls] by (auto simp: phrase_kind_None)
    have "dispatch (l # ?blk @ ?post) 0 [] = fst (section_parser k ?blk 0) @ dispatch ?post 0 []"
      using hp blk post by (rule dispatch_section)
    moreover have "dispatch (?blk @ ?post) 0 [] = dispatch ?post 0 []"
      using blk by (rule dispatch_skip)
    ultimately have "dispatch (l # ls) 0 [] = fst (section_parser k ?blk 0) @ dispatch ls 0 []"
      by simp
    with Some Cons show ?thesis by simp
  qed
qed

lemma section_parser_kind:
  assumes "phrase_kind l = Some k"
  shows "\<forall>q \<in> set (fst (section_parser k ls s)). qtype q = k"
proof -
  have tf: "list_all (\<lambda>q. qtype q = ''true_false'') (fst (parse_true_false_section ls s))"
    unfolding parse_true_false_section_def
    using plain_questions_shape [of "''true_false''"] by (simp add: list_all_iff)
  have sa: "list_all (\<lambda>q. qtype q = ''short_answer'') (fst (parse_short_answer_section ls s))"
    unfolding parse_short_answer_section_def
    using plain_questions_shape [of "''short_answer''"] by (simp add: list_all_iff)
  have la: "list_all (\<lambda>q. qtype q = ''long_answer'') (fst (parse_long_answer_section ls s))"
    unfolding parse_long_answer_section_def
    using plain_questions_shape [of "''long_answer''"] by (simp add: list_all_iff)
  have mc: "list_all (\<lambda>q. qtype q = ''mcq'') (fst (parse_mcq_section ls s))"
    using mcq_questions_shape [of ls s] by (simp add: list_all_iff)
  from assms have "k = ''mcq'' \<or> k = ''true_false'' \<or> k = ''short_answer'' \<or> k = ''long_answer''"
    by (auto simp: phrase_kind_header header_kind_def split: if_splits)
  with mc tf sa la show ?thesis
    by (auto simp: section_parser_def list_all_iff)
qed

lemma blocks_kind:
  "b \<in> set (blocks ls) \<Longrightarrow> \<exists>l. phrase_kind l = Some (fst b)"
  by (induction ls) (auto split: option.splits)

lemma filter_blocks:
  "filter (\<lambda>q. qtype q = kind)
     (concat (map (\<lambda>b. fst (section_parser (fst b) (snd b) 0)) (blocks ls))) =
   concat (map (\<lambda>b. fst (section_parser (fst b) (snd b) 0))
     (filter (\<lambda>b. fst b = kind) (blocks ls)))"
proof -
  have "filter (\<lambda>q. qtype q = kind) (concat (map (\<lambda>b. fst (section_parser (fst b) (snd b) 0)) bs)) =
      concat (map (\<lambda>b. fst (section_parser (fst b) (snd b) 0)) (filter (\<lambda>b. fst b = kind) bs))"
    if "set bs \<subseteq> set (blocks ls)" for bs
    using that
  proof (induction bs)
    case Nil
    show ?case by simp
  next
    case (Cons b bs)
    then obtain l where "phrase_kind l = Some (fst b)" using blocks_kind [of b ls] by auto
    then have r: "\<forall>q \<in> set (fst (section_parser (fst b) (snd b) 0)). qtype q = fst b"
      by (rule section_parser_kind)
    have "filter (\<lambda>q. qtype q = kind) (fst (section_parser (fst b) (snd b) 0)) =
        (if fst b = kind then fst (section_parser (fst b) (snd b) 0) else [])"
      using r by (auto simp: filter_empty_conv intro: filter_True)
    with Cons show ?case by simp
  qed
  then show ?thesis by simp
qed

text \<open>
  Claim C4. Split the normalized lines of the text at its header lines, the lines that
  start with one of the four header phrases: each header line opens a block of its kind
  that holds the lines up to the next header line, whatever its kind, or the end. The
  list that \<open>parse_questionnaire\<close> returns is the concatenation, in the order of the
  header lines, of what the section parser of each block's kind returns on the lines of
  that block alone, whatever the kinds and the order of the headers. So its length is
  the sum of the lengths of the blocks' results, and its questions of one kind are the
  concatenation, in the order of the header lines, of the results of the blocks of that
  kind.
\<close>

theorem sections_concatenated:
  "parse_questionnaire text =
     concat (map (\<lambda>b. fst (section_parser (fst b) (snd b) 0)) (blocks (normalize_lines text)))
   \<and> length (parse_questionnaire text) =
       sum_list (map (\<lambda>b. length (fst (section_parser (fst b) (snd b) 0)))
         (blocks (normalize_lines text)))
   \<and> filter (\<lambda>q. qtype q = kind) (parse_questionnaire text) =
       concat (map (\<lambda>b. fst (section_parser (fst b) (snd b) 0))
         (filter (\<lambda>b. fst b = kind) (blocks (normalize_lines text))))"
proof -
  have eq: "parse_questionnaire text =
      concat (map (\<lambda>b. fst (section_parser (fst b) (snd b) 0)) (blocks (normalize_lines text)))"
    by (simp add: parse_questionnaire_def dispatch_blocks)
  moreover have "length (concat (map (\<lambda>b. fst (section_parser (fst b) (snd b) 0)) bs)) =
      sum_list (map (\<lambda>b. length (fst (section_parser (fst b) (snd b) 0))) bs)"
    for bs :: "(string \<times> string list) list"
    by (simp add: length_concat comp_def)
  moreover note filter_blocks [of kind "normalize_lines text"]
  ultimately show ?thesis by simp
qed

text \<open>
  Claim C4, on a text with three True-or-False blocks, the first two split by a
  Short-Answer block and the last after two Long-Answer blocks in a row.
\<close>

theorem sections_concatenated_witness:
  "blocks (normalize_lines
      (''True or False:'' @ [NL] @ ''1. A'' @ [NL] @ ''Short Answer'' @ [NL] @ ''2. B'' @ [NL] @
       ''TRUE  or false'' @ [NL] @ ''3. C'' @ [NL] @ ''Long Answer'' @ [NL] @ ''4. D'' @ [NL] @
       ''Long Answer (continued)'' @ [NL] @ ''5. E'' @ [NL] @ ''True or False'' @ [NL] @ ''6. F'')) =
     [(''true_false'', [''1. A'']), (''short_answer'', [''2. B'']), (''true_false'', [''3. C'']),
      (''long_answer'', [''4. D'']), (''long_answer'', [''5. E'']), (''true_false'', [''6. F''])]
   \<and> parse_questionnaire
      (''True or False:'' @ [NL] @ ''1. A'' @ [NL] @ ''Short Answer'' @ [NL] @ ''2. B'' @ [NL] @
       ''TRUE  or false'' @ [NL] @ ''3. C'' @ [NL] @ ''Long Answer'' @ [NL] @ ''4. D'' @ [NL] @
       ''Long Answer (continued)'' @ [NL] @ ''5. E'' @ [NL] @ ''True or False'' @ [NL] @ ''6. F'') =
     [\<lparr>number = ''1'', qtext = ''1. A'', qtype = ''true_false'', options = []\<rparr>,
      \<lparr>number = ''2'', qtext = ''2. B'', qtype = ''short_answer'', options = []\<rparr>,
      \<lparr>number = ''3'', qtext = ''3. C'', qtype = ''true_false'', options = []\<rparr>,
      \<lparr>number = ''4'', qtext = ''4. D'', qtype = ''long_answer'', options = []\<rparr>,
      \<lparr>number = ''5'', qtext = ''5. E'', qtype = ''long_answer'', options = []\<rparr>,
      \<lparr>number = ''6'', qtext = ''6. F'', qtype = ''true_false'', options = []\<rparr>]
   \<and> filter (\<lambda>q. qtype q = ''true_false'') (parse_questionnaire
      (''True or False:'' @ [NL] @ ''1. A'' @ [NL] @ ''Short Answer'' @ [NL] @ ''2. B'' @ [NL] @
       ''TRUE  or false'' @ [NL] @ ''3. C'' @ [NL] @ ''Long Answer'' @ [NL] @ ''4. D'' @ [NL] @
       ''Long Answer (continued)'' @ [NL] @ ''5. E'' @ [NL] @ ''True or False'' @ [NL] @ ''6. F'')) =
     [\<lparr>number = ''1'', qtext = ''1. A'', qtype = ''true_false'', options = []\<rparr>,
      \<lparr>number = ''3'', qtext = ''3. C'', qtype = ''true_false'', options = []\<rparr>,
      \<lparr>number = ''6'', qtext = ''6. F'', qtype = ''true_false'', options = []\<rparr>]"
proof -
  have run: "blocks (normalize_lines
      (''True or False:'' @ [NL] @ ''1. A'' @ [NL] @ ''Short Answer'' @ [NL] @ ''2. B'' @ [NL] @
       ''TRUE  or false'' @ [NL] @ ''3. C'' @ [NL] @ ''Long Answer'' @ [NL] @ ''4. D'' @ [NL] @
       ''Long Answer (continued)'' @ [NL] @ ''5. E'' @ [NL] @ ''True or False'' @ [NL] @ ''6. F'')) =
     [(''true_false'', [''1. A'']), (''short_answer'', [''2. B'']), (''true_false'', [''3. C'']),
      (''long_answer'', [''4. D'']), (''long_answer'', [''5. E'']), (''true_false'', [''6. F''])]"
    by code_simp
  have p1: "fst (section_parser ''true_false'' [''1. A''] 0) =
      [\<lparr>number = ''1'', qtext = ''1. A'', qtype = ''true_false'', options = []\<rparr>]"
    by code_simp
  have p2: "fst (section_parser ''short_answer'' [''2. B''] 0) =
      [\<lparr>number = ''2'', qtext = ''2. B'', qtype = ''short_answer'', options = []\<rparr>]"
    by code_simp
  have p3: "fst (section_parser ''true_false'' [''3. C''] 0) =
      [\<lparr>number = ''3'', qtext = ''3. C'', qtype = ''true_false'', options = []\<rparr>]"
    by code_simp
  have p4: "fst (section_parser ''long_answer'' [''4. D''] 0) =
      [\<lparr>number = ''4'', qtext = ''4. D'', qtype = ''long_answer'', options = []\<rparr>]"
    by code_simp
  have p5: "fst (section_parser ''long_answer'' [''5. E''] 0) =
      [\<lparr>number = ''5'', qtext = ''5. E'', qtype = ''long_answer'', options = []\<rparr>]"
    by code_simp
  have p6: "fst (section_parser ''true_false'' [''6. F''] 0) =
      [\<lparr>number = ''6'', qtext = ''6. F'', qtype = ''true_false'', options = []\<rparr>]"
    by code_simp
  show ?thesis
    using sections_concatenated [of
      "''True or False:'' @ [NL] @ ''1. A'' @ [NL] @ ''Short Answer'' @ [NL] @ ''2. B'' @ [NL] @
       ''TRUE  or false'' @ [NL] @ ''3. C'' @ [NL] @ ''Long Answer'' @ [NL] @ ''4. D'' @ [NL] @
       ''Long Answer (continued)'' @ [NL] @ ''5. E'' @ [NL] @ ''True or False'' @ [NL] @ ''6. F''"
      "''true_false''"]
    unfolding run by (simp add: p1 p2 p3 p4 p5 p6)
qed

end
